theory Spec2Isabelle
  imports Main "HOL-Library.Word" "HOL-Library.AList"
begin

section \<open>The observable property of \<^verbatim>\<open>structs/property/property.h\<close>\<close>

text \<open>
  \<^verbatim>\<open>Property<T>\<close> holds a value, a registry of change callbacks keyed by identifier, a set of
  pointers to bound properties, a queue of released identifiers, a validator and a coercion
  callback. The embedding keeps the member names of the struct.

  \<^item> Objects live in a store indexed by address, since \<^verbatim>\<open>m_bindings\<close> holds raw pointers and
    a write to one object mutates others.
  \<^item> \<^verbatim>\<open>std::function\<close> members may be empty; the code tests them (\<^verbatim>\<open>if (m_coerceCallback)\<close>),
    so they are options, and a change callback is either empty or a callable.
  \<^item> Every callable takes its arguments by non-const reference (\<^verbatim>\<open>T&\<close>), so it is modelled by
    what it leaves in the referenced variables: a coercer maps the value to the coerced value,
    a validator returns its verdict and the value it leaves behind, a change callback returns
    the pair it leaves in \<^verbatim>\<open>oldValue\<close> and \<^verbatim>\<open>newValue\<close>.
    Effects of a callable on state it captured, and calls it makes back into a property (which
    would lock a mutex the writing thread holds), are outside the model.
  \<^item> \<^verbatim>\<open>unordered_map\<close> and \<^verbatim>\<open>unordered_set\<close> iterate in an order the language does not fix.
    They are lists here, iterated front to back; the theorems about a write hold for every
    list, hence for every iteration order. That a key or a pointer occurs once is a hypothesis
    (\<open>distinct\<close>) where a theorem needs it.
  \<^item> A trace of events records each call of a coercer, a validator and a change callback
    with the arguments it received.
  \<^item> \<^verbatim>\<open>size_t\<close> is a 64-bit word.
  \<^item> Every call runs to completion on one thread; the mutexes matter only where a call locks
    one it already holds.
\<close>

type_synonym addr = nat
type_synonym CallbackID = "64 word"
type_synonym type_id = nat

text \<open>A \<^verbatim>\<open>function<void(T&, T&)>\<close>: empty, or a target of some type with its effect on the
  two referenced variables.\<close>

datatype 'a ChangeCallback = EmptyCallback | Callback type_id "'a \<Rightarrow> 'a \<Rightarrow> 'a \<times> 'a"

type_synonym 'a Validator = "('a \<Rightarrow> bool \<times> 'a) option"
type_synonym 'a CoerceCallback = "('a \<Rightarrow> 'a) option"

record 'a Property =
  m_value :: 'a
  m_callbacks :: "(CallbackID \<times> 'a ChangeCallback) list"
  m_bindings :: "addr list"
  m_availableIDs :: "CallbackID list"
  nextCallbackID :: CallbackID
  m_validator :: "'a Validator"
  m_coerceCallback :: "'a CoerceCallback"

datatype 'a event =
    Coerced addr 'a
  | Validated addr 'a
  | Notified addr CallbackID 'a 'a

text \<open>Locking a \<^verbatim>\<open>std::mutex\<close> the calling thread already owns, and dereferencing a pointer to
  an object that is not there, have no defined behaviour; both are faults of the model.\<close>

datatype fault = Relock addr | Dangling addr

record 'a machine =
  objs :: "addr \<Rightarrow> 'a Property option"
  trace :: "'a event list"

type_synonym 'a outcome = "(fault \<times> 'a machine) + ('a \<times> 'a machine)"

subsection \<open>Construction\<close>

text \<open>The six constructors differ only in which of value, validator and coercion callback
  they set.\<close>

definition Property_new :: "'a \<Rightarrow> 'a Validator \<Rightarrow> 'a CoerceCallback \<Rightarrow> 'a Property" where
  "Property_new v validator coerceCallback =
     \<lparr>m_value = v, m_callbacks = [], m_bindings = [], m_availableIDs = [],
      nextCallbackID = 0, m_validator = validator, m_coerceCallback = coerceCallback\<rparr>"

subsection \<open>The write pipeline\<close>

text \<open>\<^verbatim>\<open>if (m_coerceCallback) m_coerceCallback(newValue);\<close>\<close>

definition coerce_step :: "addr \<Rightarrow> 'a Property \<Rightarrow> 'a \<Rightarrow> 'a event list \<Rightarrow> 'a \<times> 'a event list" where
  "coerce_step a p v tr =
     (case m_coerceCallback p of
        None \<Rightarrow> (v, tr)
      | Some c \<Rightarrow> (c v, tr @ [Coerced a v]))"

text \<open>\<^verbatim>\<open>!m_validator || m_validator(newValue)\<close>\<close>

definition validate_step ::
  "addr \<Rightarrow> 'a Property \<Rightarrow> 'a \<Rightarrow> 'a event list \<Rightarrow> bool \<times> 'a \<times> 'a event list" where
  "validate_step a p v tr =
     (case m_validator p of
        None \<Rightarrow> (True, v, tr)
      | Some vd \<Rightarrow> (fst (vd v), snd (vd v), tr @ [Validated a v]))"

text \<open>\<^verbatim>\<open>NotifyCallbacks\<close>: every non-empty callback of the map is called on the same two
  references.\<close>

fun NotifyCallbacks ::
  "addr \<Rightarrow> (CallbackID \<times> 'a ChangeCallback) list \<Rightarrow> 'a \<Rightarrow> 'a \<Rightarrow> 'a event list
     \<Rightarrow> 'a \<times> 'a \<times> 'a event list" where
  "NotifyCallbacks a [] oldValue newValue tr = (oldValue, newValue, tr)"
| "NotifyCallbacks a ((i, EmptyCallback) # cs) oldValue newValue tr =
     NotifyCallbacks a cs oldValue newValue tr"
| "NotifyCallbacks a ((i, Callback t f) # cs) oldValue newValue tr =
     NotifyCallbacks a cs (fst (f oldValue newValue)) (snd (f oldValue newValue))
       (tr @ [Notified a i oldValue newValue])"

text \<open>\<^verbatim>\<open>NotifyBindings\<close>: each bound property is locked, compared with \<^verbatim>\<open>newValue\<close>, and, when
  it differs, runs its own coercer and validator on that same reference and stores it.\<close>

fun NotifyBindings :: "addr \<Rightarrow> addr list \<Rightarrow> 'a \<Rightarrow> 'a \<Rightarrow> 'a machine \<Rightarrow> 'a outcome" where
  "NotifyBindings this [] oldValue newValue s = Inr (newValue, s)"
| "NotifyBindings this (b # bs) oldValue newValue s =
     (if b = this then Inl (Relock b, s)
      else case objs s b of
        None \<Rightarrow> Inl (Dangling b, s)
      | Some q \<Rightarrow>
          if m_value q \<noteq> newValue then
            (case coerce_step b q newValue (trace s) of (n1, tr1) \<Rightarrow>
             case validate_step b q n1 tr1 of (ok, n2, tr2) \<Rightarrow>
               NotifyBindings this bs oldValue n2
                 (if ok then s\<lparr>objs := (objs s)(b \<mapsto> q\<lparr>m_value := n2\<rparr>), trace := tr2\<rparr>
                  else s\<lparr>trace := tr2\<rparr>))
          else NotifyBindings this bs oldValue newValue s)"

text \<open>\<^verbatim>\<open>operator=(T& newValue)\<close>. The result carries what the caller's variable holds when the
  call returns.\<close>

definition assign :: "addr \<Rightarrow> 'a \<Rightarrow> 'a machine \<Rightarrow> 'a outcome" where
  "assign this newValue s =
     (case objs s this of
        None \<Rightarrow> Inl (Dangling this, s)
      | Some p \<Rightarrow>
          if m_value p \<noteq> newValue then
            (case coerce_step this p newValue (trace s) of (n1, tr1) \<Rightarrow>
             case validate_step this p n1 tr1 of (ok, n2, tr2) \<Rightarrow>
               if ok then
                 (let oldValue = m_value p in
                  case NotifyCallbacks this (m_callbacks p) oldValue n2 tr2 of (old', n3, tr3) \<Rightarrow>
                    NotifyBindings this (m_bindings p) old' n3
                      (s\<lparr>objs := (objs s)(this \<mapsto> p\<lparr>m_value := n2\<rparr>), trace := tr3\<rparr>))
               else Inr (n2, s\<lparr>trace := tr2\<rparr>))
          else Inr (newValue, s))"

text \<open>\<^verbatim>\<open>operator T()\<close>\<close>

definition read :: "addr \<Rightarrow> 'a machine \<Rightarrow> 'a option" where
  "read a s = map_option m_value (objs s a)"

text \<open>The events a run appended to the trace.\<close>

definition new_events :: "'a machine \<Rightarrow> 'a machine \<Rightarrow> 'a event list" where
  "new_events s s' = drop (length (trace s)) (trace s')"

fun is_Notified :: "'a event \<Rightarrow> bool" where
  "is_Notified (Notified a i old new) = True"
| "is_Notified _ = False"

subsection \<open>The callback registry\<close>

text \<open>\<^verbatim>\<open>AddChangeCallback\<close>: the front of \<^verbatim>\<open>m_availableIDs\<close> when there is one, otherwise
  \<^verbatim>\<open>nextCallbackID++\<close>; then \<^verbatim>\<open>m_callbacks[id] = callback\<close>.\<close>

definition AddChangeCallback :: "'a ChangeCallback \<Rightarrow> 'a Property \<Rightarrow> CallbackID \<times> 'a Property" where
  "AddChangeCallback callback p =
     (case m_availableIDs p of
        [] \<Rightarrow>
          (nextCallbackID p,
           p\<lparr>nextCallbackID := nextCallbackID p + 1,
             m_callbacks := AList.update (nextCallbackID p) callback (m_callbacks p)\<rparr>)
      | i # rest \<Rightarrow>
          (i, p\<lparr>m_availableIDs := rest,
                m_callbacks := AList.update i callback (m_callbacks p)\<rparr>))"

text \<open>\<^verbatim>\<open>RemoveChangeCallback(CallbackID)\<close>: \<^verbatim>\<open>erase\<close> returns the number of entries removed, and
  the identifier is pushed only when that is not zero.\<close>

definition RemoveChangeCallback_id :: "CallbackID \<Rightarrow> 'a Property \<Rightarrow> 'a Property" where
  "RemoveChangeCallback_id i p =
     (if i \<in> fst ` set (m_callbacks p)
      then p\<lparr>m_callbacks := AList.delete i (m_callbacks p),
             m_availableIDs := m_availableIDs p @ [i]\<rparr>
      else p)"

text \<open>\<^verbatim>\<open>target_type()\<close> of an empty function is \<^verbatim>\<open>typeid(void)\<close>, here \<open>None\<close>.\<close>

fun target_type :: "'a ChangeCallback \<Rightarrow> type_id option" where
  "target_type EmptyCallback = None"
| "target_type (Callback t f) = Some t"

text \<open>\<^verbatim>\<open>target<void(T&, T&)>()\<close> asks for a target whose type is the function type itself. A
  stored target is never of a function type (a function is stored as a pointer to it), so the
  result is the null pointer for every callback.\<close>

definition target_fn :: "'a ChangeCallback \<Rightarrow> addr option" where
  "target_fn callback = None"

definition same_target :: "'a ChangeCallback \<Rightarrow> 'a ChangeCallback \<Rightarrow> bool" where
  "same_target callback stored \<longleftrightarrow>
     target_type callback = target_type stored \<and> target_fn callback = target_fn stored"

text \<open>The loop of \<^verbatim>\<open>RemoveChangeCallback(ChangeCallback)\<close>: the first entry that compares
  equal gives its identifier and is erased, and the loop ends.\<close>

fun erase_first_match ::
  "'a ChangeCallback \<Rightarrow> (CallbackID \<times> 'a ChangeCallback) list
     \<Rightarrow> (CallbackID \<times> (CallbackID \<times> 'a ChangeCallback) list) option" where
  "erase_first_match callback [] = None"
| "erase_first_match callback ((i, c) # cs) =
     (if same_target callback c then Some (i, cs)
      else case erase_first_match callback cs of
             None \<Rightarrow> None
           | Some (j, cs') \<Rightarrow> Some (j, (i, c) # cs'))"

definition RemoveChangeCallback_fn :: "'a ChangeCallback \<Rightarrow> 'a Property \<Rightarrow> 'a Property" where
  "RemoveChangeCallback_fn callback p =
     (case erase_first_match callback (m_callbacks p) of
        None \<Rightarrow> p
      | Some (i, cs') \<Rightarrow> p\<lparr>m_availableIDs := m_availableIDs p @ [i], m_callbacks := cs'\<rparr>)"

definition SetValidator :: "'a Validator \<Rightarrow> 'a Property \<Rightarrow> 'a Property" where
  "SetValidator validator p = p\<lparr>m_validator := validator\<rparr>"

definition SetCoerceCallback :: "'a CoerceCallback \<Rightarrow> 'a Property \<Rightarrow> 'a Property" where
  "SetCoerceCallback coerceCallback p = p\<lparr>m_coerceCallback := coerceCallback\<rparr>"

text \<open>Sequences of registry calls on one property.\<close>

datatype 'a registry_call =
    Add "'a ChangeCallback"
  | RemoveId CallbackID
  | RemoveFn "'a ChangeCallback"

fun registry_step :: "'a registry_call \<Rightarrow> 'a Property \<Rightarrow> 'a Property" where
  "registry_step (Add callback) p = snd (AddChangeCallback callback p)"
| "registry_step (RemoveId i) p = RemoveChangeCallback_id i p"
| "registry_step (RemoveFn callback) p = RemoveChangeCallback_fn callback p"

fun registry_run :: "'a registry_call list \<Rightarrow> 'a Property \<Rightarrow> 'a Property" where
  "registry_run [] p = p"
| "registry_run (c # cs) p = registry_run cs (registry_step c p)"

text \<open>The identifiers handed out by successive \<^verbatim>\<open>AddChangeCallback\<close> calls.\<close>

fun add_all :: "'a ChangeCallback list \<Rightarrow> 'a Property \<Rightarrow> CallbackID list \<times> 'a Property" where
  "add_all [] p = ([], p)"
| "add_all (c # cs) p =
     (case AddChangeCallback c p of (i, p') \<Rightarrow>
      case add_all cs p' of (is, p'') \<Rightarrow> (i # is, p''))"

definition ids_registered :: "'a Property \<Rightarrow> CallbackID set" where
  "ids_registered p = fst ` set (m_callbacks p)"

definition ids_disjoint :: "'a Property \<Rightarrow> bool" where
  "ids_disjoint p \<longleftrightarrow> ids_registered p \<inter> set (m_availableIDs p) = {}"

subsection \<open>Bindings\<close>

text \<open>\<^verbatim>\<open>m_bindings.insert(&other)\<close> and \<^verbatim>\<open>m_bindings.erase(&other)\<close> on the object at \<open>this\<close>.
  The binding calls take no lock.\<close>

definition AddOneWayBind :: "addr \<Rightarrow> addr \<Rightarrow> 'a machine \<Rightarrow> (fault \<times> 'a machine) + 'a machine" where
  "AddOneWayBind this other s =
     (case objs s this of
        None \<Rightarrow> Inl (Dangling this, s)
      | Some p \<Rightarrow> Inr (s\<lparr>objs := (objs s)(this \<mapsto> p\<lparr>m_bindings := List.insert other (m_bindings p)\<rparr>)\<rparr>))"

definition RemoveOneWayBind :: "addr \<Rightarrow> addr \<Rightarrow> 'a machine \<Rightarrow> (fault \<times> 'a machine) + 'a machine" where
  "RemoveOneWayBind this other s =
     (case objs s this of
        None \<Rightarrow> Inl (Dangling this, s)
      | Some p \<Rightarrow> Inr (s\<lparr>objs := (objs s)(this \<mapsto> p\<lparr>m_bindings := removeAll other (m_bindings p)\<rparr>)\<rparr>))"

definition AddOneWayToSourceBind :: "addr \<Rightarrow> addr \<Rightarrow> 'a machine \<Rightarrow> (fault \<times> 'a machine) + 'a machine" where
  "AddOneWayToSourceBind this other s = AddOneWayBind other this s"

definition RemoveOneWayToSourceBind :: "addr \<Rightarrow> addr \<Rightarrow> 'a machine \<Rightarrow> (fault \<times> 'a machine) + 'a machine" where
  "RemoveOneWayToSourceBind this other s = RemoveOneWayBind other this s"

definition AddBind :: "addr \<Rightarrow> addr \<Rightarrow> 'a machine \<Rightarrow> (fault \<times> 'a machine) + 'a machine" where
  "AddBind this other s =
     (case AddOneWayBind this other s of
        Inl e \<Rightarrow> Inl e
      | Inr s1 \<Rightarrow> AddOneWayToSourceBind this other s1)"

definition RemoveBind :: "addr \<Rightarrow> addr \<Rightarrow> 'a machine \<Rightarrow> (fault \<times> 'a machine) + 'a machine" where
  "RemoveBind this other s =
     (case RemoveOneWayBind this other s of
        Inl e \<Rightarrow> Inl e
      | Inr s1 \<Rightarrow> RemoveOneWayToSourceBind this other s1)"

subsection \<open>Reading a run\<close>

text \<open>The machine a call leaves behind, whether it returned or stopped at a fault.\<close>

definition final :: "'a outcome \<Rightarrow> 'a machine" where
  "final r = (case r of Inl (f, s) \<Rightarrow> s | Inr (v, s) \<Rightarrow> s)"

text \<open>What the coercer and the validator of a property make of a candidate value.\<close>

definition coerced :: "'a Property \<Rightarrow> 'a \<Rightarrow> 'a" where
  "coerced p v = fst (coerce_step 0 p v [])"

definition accepts :: "'a Property \<Rightarrow> 'a \<Rightarrow> bool" where
  "accepts p v = fst (validate_step 0 p v [])"

definition validated :: "'a Property \<Rightarrow> 'a \<Rightarrow> 'a" where
  "validated p v = fst (snd (validate_step 0 p v []))"

text \<open>What the callbacks of a registry leave in the two referenced variables, and the calls
  they receive.\<close>

definition callbacks_result ::
  "(CallbackID \<times> 'a ChangeCallback) list \<Rightarrow> 'a \<Rightarrow> 'a \<Rightarrow> 'a \<times> 'a" where
  "callbacks_result cs old new =
     (fst (NotifyCallbacks 0 cs old new []), fst (snd (NotifyCallbacks 0 cs old new [])))"

definition callback_events ::
  "addr \<Rightarrow> (CallbackID \<times> 'a ChangeCallback) list \<Rightarrow> 'a \<Rightarrow> 'a \<Rightarrow> 'a event list" where
  "callback_events a cs old new = snd (snd (NotifyCallbacks a cs old new []))"

text \<open>The value a bound property holds after it has been offered \<open>w\<close>, and the value the
  shared variable holds after that step.\<close>

definition offered_update :: "'a Property \<Rightarrow> 'a \<Rightarrow> 'a" where
  "offered_update q w =
     (if m_value q \<noteq> w \<and> accepts q (coerced q w) then validated q (coerced q w)
      else m_value q)"

definition passed_on :: "'a Property \<Rightarrow> 'a \<Rightarrow> 'a" where
  "passed_on q w = (if m_value q \<noteq> w then validated q (coerced q w) else w)"

text \<open>The calls of the coercer and the validator of the property at \<open>b\<close> on a candidate
  \<open>w\<close>; they are made when \<open>w\<close> differs from the stored value.\<close>

definition check_events :: "addr \<Rightarrow> 'a Property \<Rightarrow> 'a \<Rightarrow> 'a event list" where
  "check_events b q w =
     (if m_value q \<noteq> w
      then snd (snd (validate_step b q (fst (coerce_step b q w [])) (snd (coerce_step b q w []))))
      else [])"

text \<open>The identifiers of the callbacks that are called at \<open>a\<close>, in the order of the trace.\<close>

fun notified_at :: "addr \<Rightarrow> 'a event list \<Rightarrow> CallbackID list" where
  "notified_at a [] = []"
| "notified_at a (Notified b i old new # es) =
     (if b = a then i # notified_at a es else notified_at a es)"
| "notified_at a (e # es) = notified_at a es"

text \<open>The values the validator of the property at \<open>a\<close> is called on.\<close>

fun validated_at :: "addr \<Rightarrow> 'a event list \<Rightarrow> 'a list" where
  "validated_at a [] = []"
| "validated_at a (Validated b v # es) =
     (if b = a then v # validated_at a es else validated_at a es)"
| "validated_at a (e # es) = validated_at a es"

fun callable_ids :: "(CallbackID \<times> 'a ChangeCallback) list \<Rightarrow> CallbackID list" where
  "callable_ids [] = []"
| "callable_ids ((i, EmptyCallback) # cs) = callable_ids cs"
| "callable_ids ((i, Callback t f) # cs) = i # callable_ids cs"

fun event_addr :: "'a event \<Rightarrow> addr" where
  "event_addr (Coerced a v) = a"
| "event_addr (Validated a v) = a"
| "event_addr (Notified a i old new) = a"

subsection \<open>Example configurations\<close>

definition positive_validator :: "int \<Rightarrow> bool \<times> int" where
  "positive_validator v = (0 < v, v)"

definition even_validator :: "int \<Rightarrow> bool \<times> int" where
  "even_validator v = (even v, v)"

definition clamp_0_99 :: "int \<Rightarrow> int" where
  "clamp_0_99 v = max 0 (min 99 v)"

definition observer :: "int ChangeCallback" where
  "observer = Callback 1 (\<lambda>old new. (old, new))"

text \<open>One property holding 5 that accepts positive values only, with one callback.\<close>

definition guarded_property :: "int Property" where
  "guarded_property =
     snd (AddChangeCallback observer (Property_new 5 (Some positive_validator) None))"

definition guarded_machine :: "int machine" where
  "guarded_machine = \<lparr>objs = [0 \<mapsto> guarded_property], trace = []\<rparr>"

text \<open>One property holding 0 that clamps to 0..99 and accepts even values only.\<close>

definition clamped_property :: "int Property" where
  "clamped_property = Property_new 0 (Some even_validator) (Some clamp_0_99)"

definition clamped_machine :: "int machine" where
  "clamped_machine = \<lparr>objs = [0 \<mapsto> clamped_property], trace = []\<rparr>"

text \<open>A chain: the property at 0 is bound to the one at 1, which clamps and is bound to the
  one at 2. Each has a callback.\<close>

definition chain_A :: "int Property" where
  "chain_A = (Property_new 1 None None)\<lparr>m_callbacks := [(0, observer)], m_bindings := [1]\<rparr>"

definition chain_B :: "int Property" where
  "chain_B = (Property_new 2 None (Some clamp_0_99))
     \<lparr>m_callbacks := [(0, observer)], m_bindings := [2]\<rparr>"

definition chain_C :: "int Property" where
  "chain_C = (Property_new 3 None None)\<lparr>m_callbacks := [(0, observer)]\<rparr>"

definition chain_machine :: "int machine" where
  "chain_machine = \<lparr>objs = [0 \<mapsto> chain_A, 1 \<mapsto> chain_B, 2 \<mapsto> chain_C], trace = []\<rparr>"

text \<open>Two properties, not yet bound; the second clamps.\<close>

definition pair_A :: "int Property" where
  "pair_A = (Property_new 1 None None)\<lparr>m_callbacks := [(0, observer)]\<rparr>"

definition pair_B :: "int Property" where
  "pair_B = (Property_new 2 None (Some clamp_0_99))\<lparr>m_callbacks := [(0, observer)]\<rparr>"

definition pair_machine :: "int machine" where
  "pair_machine = \<lparr>objs = [0 \<mapsto> pair_A, 1 \<mapsto> pair_B], trace = []\<rparr>"

text \<open>A property with nothing registered, and two callables of different target types.\<close>

definition fresh_property :: "int Property" where
  "fresh_property = Property_new 0 None None"

definition doubler :: "int ChangeCallback" where
  "doubler = Callback 2 (\<lambda>old new. (old, 2 * new))"

text \<open>A source that clamps, bound to two targets with coercers of their own; the list gives
  the order in which the targets are visited.\<close>

definition fan_A :: "addr list \<Rightarrow> int Property" where
  "fan_A bs = (Property_new 0 None (Some clamp_0_99))\<lparr>m_bindings := bs\<rparr>"

definition fan_B :: "int Property" where
  "fan_B = Property_new 0 None (Some (\<lambda>v. v + 1))"

definition fan_C :: "int Property" where
  "fan_C = Property_new 0 None (Some (\<lambda>v. 2 * v))"

definition fan_machine :: "addr list \<Rightarrow> int machine" where
  "fan_machine bs = \<lparr>objs = [0 \<mapsto> fan_A bs, 1 \<mapsto> fan_B, 2 \<mapsto> fan_C], trace = []\<rparr>"

text \<open>A source with two callbacks that double \<^verbatim>\<open>newValue\<close> and a third that only looks,
  bound to a target whose coercer adds one and to a target whose coercer changes nothing.\<close>

definition watcher :: "int Property" where
  "watcher = Property_new 0 None (Some (\<lambda>v. v))"

definition echo_A :: "int Property" where
  "echo_A = (Property_new 1 None None)
     \<lparr>m_callbacks := [(0, doubler), (1, doubler), (2, observer)], m_bindings := [1, 2]\<rparr>"

definition echo_machine :: "int machine" where
  "echo_machine = \<lparr>objs = [0 \<mapsto> echo_A, 1 \<mapsto> fan_B, 2 \<mapsto> watcher], trace = []\<rparr>"

section \<open>Lemmas about the write pipeline\<close>


subsection \<open>The steps of the pipeline\<close>

lemma coerce_step_eq:
  "coerce_step a p v tr =
     (coerced p v, tr @ (case m_coerceCallback p of None \<Rightarrow> [] | Some c \<Rightarrow> [Coerced a v]))"
  by (simp add: coerce_step_def coerced_def split: option.splits)

lemma validate_step_eq:
  "validate_step a p v tr =
     (accepts p v, validated p v,
      tr @ (case m_validator p of None \<Rightarrow> [] | Some vd \<Rightarrow> [Validated a v]))"
  by (simp add: validate_step_def accepts_def validated_def split: option.splits)

lemma NotifyCallbacks_values:
  "fst (NotifyCallbacks a cs old new tr) = fst (NotifyCallbacks a' cs old new tr') \<and>
   fst (snd (NotifyCallbacks a cs old new tr)) = fst (snd (NotifyCallbacks a' cs old new tr'))"
proof (induction cs arbitrary: old new tr tr')
  case Nil
  show ?case by simp
next
  case (Cons c cs)
  obtain i cb where c: "c = (i, cb)" by (cases c)
  show ?case
  proof (cases cb)
    case EmptyCallback
    with c Cons.IH show ?thesis by simp
  next
    case (Callback t f)
    with c Cons.IH show ?thesis by simp
  qed
qed

lemma NotifyCallbacks_trace:
  "snd (snd (NotifyCallbacks a cs old new tr)) = tr @ snd (snd (NotifyCallbacks a cs old new []))"
proof (induction cs arbitrary: old new tr)
  case Nil
  show ?case by simp
next
  case (Cons c cs)
  obtain i cb where c: "c = (i, cb)" by (cases c)
  show ?case
  proof (cases cb)
    case EmptyCallback
    with c Cons.IH [of old new tr] show ?thesis by simp
  next
    case (Callback t f)
    have "snd (snd (NotifyCallbacks a (c # cs) old new tr)) =
          (tr @ [Notified a i old new]) @
            snd (snd (NotifyCallbacks a cs (fst (f old new)) (snd (f old new)) []))"
      using c Callback Cons.IH [of "fst (f old new)" "snd (f old new)" "tr @ [Notified a i old new]"]
      by simp
    moreover have "snd (snd (NotifyCallbacks a (c # cs) old new [])) =
          [Notified a i old new] @
            snd (snd (NotifyCallbacks a cs (fst (f old new)) (snd (f old new)) []))"
      using c Callback Cons.IH [of "fst (f old new)" "snd (f old new)" "[Notified a i old new]"]
      by simp
    ultimately show ?thesis by simp
  qed
qed

lemma NotifyCallbacks_eq:
  "NotifyCallbacks a cs old new tr =
     (fst (callbacks_result cs old new), snd (callbacks_result cs old new),
      tr @ callback_events a cs old new)"
proof -
  have "fst (NotifyCallbacks a cs old new tr) = fst (callbacks_result cs old new)"
    using NotifyCallbacks_values [of a cs old new tr 0 "[]"]
    by (simp add: callbacks_result_def)
  moreover have "fst (snd (NotifyCallbacks a cs old new tr)) = snd (callbacks_result cs old new)"
    using NotifyCallbacks_values [of a cs old new tr 0 "[]"]
    by (simp add: callbacks_result_def)
  moreover have "snd (snd (NotifyCallbacks a cs old new tr)) = tr @ callback_events a cs old new"
    using NotifyCallbacks_trace [of a cs old new tr] by (simp add: callback_events_def)
  ultimately show ?thesis by (simp add: prod_eq_iff)
qed

lemma callbacks_result_simps:
  "callbacks_result [] old new = (old, new)"
  "callbacks_result ((i, EmptyCallback) # cs) old new = callbacks_result cs old new"
  "callbacks_result ((i, Callback t f) # cs) old new =
     callbacks_result cs (fst (f old new)) (snd (f old new))"
  using NotifyCallbacks_values [of 0 cs "fst (f old new)" "snd (f old new)" "[Notified 0 i old new]" 0 "[]"]
  by (simp_all add: callbacks_result_def)

lemma callback_events_simps:
  "callback_events a [] old new = []"
  "callback_events a ((i, EmptyCallback) # cs) old new = callback_events a cs old new"
  "callback_events a ((i, Callback t f) # cs) old new =
     Notified a i old new # callback_events a cs (fst (f old new)) (snd (f old new))"
  using NotifyCallbacks_trace [of a cs "fst (f old new)" "snd (f old new)" "[Notified a i old new]"]
  by (simp_all add: callback_events_def)

lemma callbacks_result_append:
  "callbacks_result (cs1 @ cs2) old new =
     callbacks_result cs2 (fst (callbacks_result cs1 old new)) (snd (callbacks_result cs1 old new))"
proof (induction cs1 arbitrary: old new)
  case Nil
  show ?case by (simp add: callbacks_result_simps)
next
  case (Cons c cs1)
  obtain i cb where c: "c = (i, cb)" by (cases c)
  show ?case using c Cons.IH by (cases cb) (simp_all add: callbacks_result_simps)
qed

lemma callback_events_append:
  "callback_events a (cs1 @ cs2) old new =
     callback_events a cs1 old new @
     callback_events a cs2 (fst (callbacks_result cs1 old new)) (snd (callbacks_result cs1 old new))"
proof (induction cs1 arbitrary: old new)
  case Nil
  show ?case by (simp add: callbacks_result_simps callback_events_simps)
next
  case (Cons c cs1)
  obtain i cb where c: "c = (i, cb)" by (cases c)
  show ?case using c Cons.IH
    by (cases cb) (simp_all add: callbacks_result_simps callback_events_simps)
qed

lemma callback_events_Notified: "filter is_Notified (callback_events a cs old new) = callback_events a cs old new"
proof (induction cs arbitrary: old new)
  case Nil
  show ?case by (simp add: callback_events_simps)
next
  case (Cons c cs)
  obtain i cb where c: "c = (i, cb)" by (cases c)
  show ?case using c Cons.IH by (cases cb) (simp_all add: callback_events_simps)
qed

lemma callback_events_is_Notified:
  "e \<in> set (callback_events a cs old new) \<Longrightarrow> is_Notified e"
  using callback_events_Notified [of a cs old new] by (simp add: filter_id_conv)

lemma callback_events_addr: "e \<in> set (callback_events a cs old new) \<Longrightarrow> event_addr e = a"
proof (induction cs arbitrary: old new)
  case Nil
  then show ?case by (simp add: callback_events_simps)
next
  case (Cons c cs)
  obtain i cb where c: "c = (i, cb)" by (cases c)
  show ?case using c Cons by (cases cb) (auto simp: callback_events_simps)
qed

lemma validated_at_append: "validated_at a (xs @ ys) = validated_at a xs @ validated_at a ys"
  by (induction a xs rule: validated_at.induct) simp_all

lemma validated_at_elsewhere: "\<forall>e \<in> set es. event_addr e \<noteq> a \<Longrightarrow> validated_at a es = []"
  by (induction a es rule: validated_at.induct) simp_all

lemma validated_at_Notified: "\<forall>e \<in> set es. is_Notified e \<Longrightarrow> validated_at a es = []"
  by (induction a es rule: validated_at.induct) simp_all

lemma validated_at_callback_events: "validated_at b (callback_events a cs old new) = []"
  by (rule validated_at_Notified) (simp add: callback_events_is_Notified)

lemma notified_at_append: "notified_at a (xs @ ys) = notified_at a xs @ notified_at a ys"
  by (induction a xs rule: notified_at.induct) simp_all

lemma notified_at_callback_events:
  "notified_at b (callback_events a cs old new) = (if b = a then callable_ids cs else [])"
proof (induction cs arbitrary: old new)
  case Nil
  show ?case by (simp add: callback_events_simps)
next
  case (Cons c cs)
  obtain i cb where c: "c = (i, cb)" by (cases c)
  show ?case
  proof (cases cb)
    case EmptyCallback
    with c Cons.IH show ?thesis by (simp add: callback_events_simps)
  next
    case (Callback t f)
    with c Cons.IH [of "fst (f old new)" "snd (f old new)"] show ?thesis
      by (cases "b = a") (simp_all add: callback_events_simps)
  qed
qed

subsection \<open>Propagation to the bound properties\<close>

lemma Property_value_triv: "q\<lparr>m_value := m_value q\<rparr> = q"
  by simp

lemma NotifyBindings_step:
  assumes "b \<noteq> this" and "objs s b = Some q"
  shows "NotifyBindings this (b # bs) old w s =
           NotifyBindings this bs old (passed_on q w)
             (s\<lparr>objs := (objs s)(b \<mapsto> q\<lparr>m_value := offered_update q w\<rparr>),
                trace := trace s @ check_events b q w\<rparr>)"
proof (cases "m_value q = w")
  case True
  have "(objs s)(b \<mapsto> q) = objs s" using assms(2) by (rule fun_upd_idem)
  then show ?thesis using assms unfolding True [symmetric]
    by (simp add: passed_on_def offered_update_def check_events_def NotifyBindings.simps(2))
next
  case False
  show ?thesis
  proof (cases "accepts q (coerced q w)")
    case True
    with False assms show ?thesis
      by (simp add: passed_on_def offered_update_def check_events_def coerce_step_eq
          validate_step_eq)
  next
    case no: False
    have "(objs s)(b \<mapsto> q) = objs s" using assms(2) by (rule fun_upd_idem)
    with no False assms show ?thesis
      by (simp add: passed_on_def offered_update_def check_events_def coerce_step_eq
          validate_step_eq)
  qed
qed

lemma NotifyBindings_relock:
  "NotifyBindings this (this # bs) old w s = Inl (Relock this, s)"
  by simp

lemma NotifyBindings_dangling:
  "b \<noteq> this \<Longrightarrow> objs s b = None \<Longrightarrow> NotifyBindings this (b # bs) old w s = Inl (Dangling b, s)"
  by simp

declare NotifyBindings.simps(2) [simp del]

lemma check_events_shape:
  "e \<in> set (check_events b q w) \<Longrightarrow> \<not> is_Notified e \<and> event_addr e = b"
  by (auto simp: check_events_def coerce_step_eq validate_step_eq split: if_splits option.splits)

lemma NotifyBindings_frame:
  "c \<notin> set bs \<Longrightarrow> objs (final (NotifyBindings this bs old w s)) c = objs s c"
proof (induction bs arbitrary: w s)
  case Nil
  show ?case by (simp add: final_def)
next
  case (Cons b bs)
  show ?case
  proof (cases "b = this")
    case True
    then show ?thesis by (simp add: final_def NotifyBindings_relock)
  next
    case False
    show ?thesis
    proof (cases "objs s b")
      case None
      with False show ?thesis by (simp add: final_def NotifyBindings_dangling)
    next
      case (Some q)
      from Cons.prems have "c \<noteq> b" "c \<notin> set bs" by auto
      with Cons.IH show ?thesis
        by (simp add: NotifyBindings_step [OF False Some])
    qed
  qed
qed

lemma NotifyBindings_this:
  "objs (final (NotifyBindings this bs old w s)) this = objs s this"
proof (induction bs arbitrary: w s)
  case Nil
  show ?case by (simp add: final_def)
next
  case (Cons b bs)
  show ?case
  proof (cases "b = this")
    case True
    then show ?thesis by (simp add: final_def NotifyBindings_relock)
  next
    case False
    show ?thesis
    proof (cases "objs s b")
      case None
      with False show ?thesis by (simp add: final_def NotifyBindings_dangling)
    next
      case (Some q)
      with False Cons.IH show ?thesis
        by (simp add: NotifyBindings_step [OF False Some])
    qed
  qed
qed

lemma NotifyBindings_fields:
  "objs s d = Some q \<Longrightarrow>
     \<exists>x. objs (final (NotifyBindings this bs old w s)) d = Some (q\<lparr>m_value := x\<rparr>)"
proof (induction bs arbitrary: w s q)
  case Nil
  then have "objs (final (NotifyBindings this [] old w s)) d = Some (q\<lparr>m_value := m_value q\<rparr>)"
    by (simp add: final_def)
  then show ?case by blast
next
  case (Cons b bs)
  have triv: "\<exists>x. objs s d = Some (q\<lparr>m_value := x\<rparr>)"
    using Cons.prems Property_value_triv [of q] by metis
  show ?case
  proof (cases "b = this")
    case True
    with triv show ?thesis by (simp add: final_def NotifyBindings_relock)
  next
    case False
    show ?thesis
    proof (cases "objs s b")
      case None
      with False triv show ?thesis by (simp add: final_def NotifyBindings_dangling)
    next
      case (Some r)
      let ?s1 = "s\<lparr>objs := (objs s)(b \<mapsto> r\<lparr>m_value := offered_update r w\<rparr>),
                    trace := trace s @ check_events b r w\<rparr>"
      show ?thesis
      proof (cases "d = b")
        case True
        with Some Cons.prems have rq: "r = q" by simp
        have "objs ?s1 d = Some (q\<lparr>m_value := offered_update q w\<rparr>)"
          using True rq by simp
        from Cons.IH [OF this, of "passed_on r w"]
        show ?thesis by (simp add: NotifyBindings_step [OF False Some])
      next
        case neq: False
        then have "objs ?s1 d = Some q" using Cons.prems by simp
        from Cons.IH [OF this, of "passed_on r w"]
        show ?thesis by (simp add: NotifyBindings_step [OF False Some])
      qed
    qed
  qed
qed

lemma NotifyBindings_trace:
  "\<exists>evs. trace (final (NotifyBindings this bs old w s)) = trace s @ evs \<and>
         (\<forall>e \<in> set evs. \<not> is_Notified e \<and> event_addr e \<in> set bs \<and> event_addr e \<noteq> this)"
proof (induction bs arbitrary: w s)
  case Nil
  show ?case by (simp add: final_def)
next
  case (Cons b bs)
  show ?case
  proof (cases "b = this")
    case True
    then show ?thesis by (simp add: final_def NotifyBindings_relock)
  next
    case False
    show ?thesis
    proof (cases "objs s b")
      case None
      with False show ?thesis by (simp add: final_def NotifyBindings_dangling)
    next
      case (Some q)
      let ?s1 = "s\<lparr>objs := (objs s)(b \<mapsto> q\<lparr>m_value := offered_update q w\<rparr>),
                    trace := trace s @ check_events b q w\<rparr>"
      from Cons.IH [of "passed_on q w" ?s1] obtain evs where
        evs: "trace (final (NotifyBindings this bs old (passed_on q w) ?s1)) = trace ?s1 @ evs"
          "\<forall>e \<in> set evs. \<not> is_Notified e \<and> event_addr e \<in> set bs \<and> event_addr e \<noteq> this"
        by blast
      have "trace (final (NotifyBindings this (b # bs) old w s)) =
              trace s @ (check_events b q w @ evs)"
        using evs(1) by (simp add: NotifyBindings_step [OF False Some])
      moreover have "\<forall>e \<in> set (check_events b q w @ evs).
          \<not> is_Notified e \<and> event_addr e \<in> set (b # bs) \<and> event_addr e \<noteq> this"
        using evs(2) False check_events_shape [of _ b q w] by auto
      ultimately show ?thesis by blast
    qed
  qed
qed

lemma NotifyBindings_head:
  assumes "b \<noteq> this" and "objs s b = Some q" and "b \<notin> set bs"
  shows "objs (final (NotifyBindings this (b # bs) old w s)) b =
           Some (q\<lparr>m_value := offered_update q w\<rparr>)"
  using assms(3) by (simp add: NotifyBindings_step [OF assms(1,2)] NotifyBindings_frame)

lemma offered_update_same: "offered_update q (m_value q) = m_value q"
  by (simp add: offered_update_def)

lemma NotifyBindings_target:
  "distinct bs \<Longrightarrow> objs s b = Some q \<Longrightarrow>
     \<exists>w. objs (final (NotifyBindings this bs old v s)) b = Some (q\<lparr>m_value := offered_update q w\<rparr>)"
proof (induction bs arbitrary: v s)
  case Nil
  then have "objs (final (NotifyBindings this [] old v s)) b =
      Some (q\<lparr>m_value := offered_update q (m_value q)\<rparr>)"
    by (simp add: final_def offered_update_same)
  then show ?case by blast
next
  case (Cons c bs)
  have triv: "objs s b = Some (q\<lparr>m_value := offered_update q (m_value q)\<rparr>)"
    using Cons.prems by (simp add: offered_update_same)
  show ?case
  proof (cases "c = this")
    case True
    with triv show ?thesis by (auto simp: final_def NotifyBindings_relock)
  next
    case False
    show ?thesis
    proof (cases "objs s c")
      case None
      with False triv show ?thesis by (auto simp: final_def NotifyBindings_dangling)
    next
      case (Some r)
      let ?s1 = "s\<lparr>objs := (objs s)(c \<mapsto> r\<lparr>m_value := offered_update r v\<rparr>),
                    trace := trace s @ check_events c r v\<rparr>"
      show ?thesis
      proof (cases "b = c")
        case True
        with Some Cons.prems have "r = q" "c \<notin> set bs" by auto
        then have "objs (final (NotifyBindings this (c # bs) old v s)) b =
            Some (q\<lparr>m_value := offered_update q v\<rparr>)"
          using True NotifyBindings_head [OF False Some, of bs old v] by simp
        then show ?thesis by blast
      next
        case neq: False
        then have "objs ?s1 b = Some q" using Cons.prems by simp
        moreover have "distinct bs" using Cons.prems by simp
        ultimately obtain w where
          "objs (final (NotifyBindings this bs old (passed_on r v) ?s1)) b =
             Some (q\<lparr>m_value := offered_update q w\<rparr>)"
          using Cons.IH by blast
        then show ?thesis by (auto simp: NotifyBindings_step [OF False Some])
      qed
    qed
  qed
qed

lemma foldl_passed_on_cong:
  "\<forall>b \<in> set bs. f b = g b \<Longrightarrow>
     foldl (\<lambda>w b. passed_on (the (f b)) w) v bs = foldl (\<lambda>w b. passed_on (the (g b)) w) v bs"
  by (induction bs arbitrary: v) simp_all



text \<open>The target at any position is offered what the targets before it left in the shared
  variable.\<close>

lemma NotifyBindings_nth:
  assumes "distinct (pre @ b # post)" and "this \<notin> set pre" and "\<forall>x \<in> set pre. objs s x \<noteq> None"
    and "b \<noteq> this" and "objs s b = Some q"
  shows "objs (final (NotifyBindings this (pre @ b # post) old v s)) b =
           Some (q\<lparr>m_value := offered_update q
             (foldl (\<lambda>w x. passed_on (the (objs s x)) w) v pre)\<rparr>)"
  using assms
proof (induction pre arbitrary: v s)
  case Nil
  then have "b \<notin> set post" by simp
  from NotifyBindings_head [OF Nil(4,5) this] show ?case by simp
next
  case (Cons c pre)
  from Cons.prems have ne: "c \<noteq> this" by simp
  from Cons.prems obtain r where r: "objs s c = Some r" by auto
  let ?s1 = "s\<lparr>objs := (objs s)(c \<mapsto> r\<lparr>m_value := offered_update r v\<rparr>),
                trace := trace s @ check_events c r v\<rparr>"
  from Cons.prems have cb: "c \<noteq> b" and cpre: "c \<notin> set pre" by auto
  have 1: "distinct (pre @ b # post)" using Cons.prems(1) by simp
  have 2: "this \<notin> set pre" using Cons.prems(2) by simp
  have 3: "\<forall>x \<in> set pre. objs ?s1 x \<noteq> None" using Cons.prems(3) by simp
  have 5: "objs ?s1 b = Some q" using Cons.prems(5) cb by simp
  have "objs (final (NotifyBindings this (pre @ b # post) old (passed_on r v) ?s1)) b =
      Some (q\<lparr>m_value := offered_update q
        (foldl (\<lambda>w x. passed_on (the (objs ?s1 x)) w) (passed_on r v) pre)\<rparr>)"
    by (rule Cons.IH [OF 1 2 3 Cons.prems(4) 5])
  moreover have "foldl (\<lambda>w x. passed_on (the (objs ?s1 x)) w) (passed_on r v) pre =
      foldl (\<lambda>w x. passed_on (the (objs s x)) w) (passed_on r v) pre"
    using cpre by (intro foldl_passed_on_cong) auto
  ultimately show ?case using r by (simp add: NotifyBindings_step [OF ne r])
qed

lemma check_events_at:
  "filter (\<lambda>e. event_addr e = b) (check_events c q w) = (if c = b then check_events c q w else [])"
proof (cases "c = b")
  case True
  then have "\<forall>e \<in> set (check_events c q w). event_addr e = b"
    using check_events_shape [of _ c q w] by auto
  with True show ?thesis by simp
next
  case False
  then have "\<forall>e \<in> set (check_events c q w). event_addr e \<noteq> b"
    using check_events_shape [of _ c q w] by auto
  with False show ?thesis by (simp add: filter_empty_conv)
qed

lemma NotifyBindings_quiet_at:
  assumes "b \<notin> set bs"
  shows "filter (\<lambda>e. event_addr e = b) (trace (final (NotifyBindings this bs old v s))) =
           filter (\<lambda>e. event_addr e = b) (trace s)"
proof -
  from NotifyBindings_trace [of this bs old v s] obtain evs where
    tr: "trace (final (NotifyBindings this bs old v s)) = trace s @ evs"
    and sh: "\<forall>e \<in> set evs. \<not> is_Notified e \<and> event_addr e \<in> set bs \<and> event_addr e \<noteq> this"
    by blast
  have "\<forall>e \<in> set evs. event_addr e \<noteq> b" using sh assms by auto
  then have "filter (\<lambda>e. event_addr e = b) evs = []" by (simp add: filter_empty_conv)
  then show ?thesis unfolding tr by simp
qed

lemma NotifyBindings_nth_events:
  assumes "distinct (pre @ b # post)" and "this \<notin> set pre" and "\<forall>x \<in> set pre. objs s x \<noteq> None"
    and "b \<noteq> this" and "objs s b = Some q"
  shows "filter (\<lambda>e. event_addr e = b)
           (trace (final (NotifyBindings this (pre @ b # post) old v s))) =
         filter (\<lambda>e. event_addr e = b) (trace s) @
           check_events b q (foldl (\<lambda>w x. passed_on (the (objs s x)) w) v pre)"
  using assms
proof (induction pre arbitrary: v s)
  case Nil
  then have "b \<notin> set post" by simp
  note quiet = NotifyBindings_quiet_at [OF this, of this old "passed_on q v"
      "s\<lparr>objs := (objs s)(b \<mapsto> q\<lparr>m_value := offered_update q v\<rparr>),
         trace := trace s @ check_events b q v\<rparr>"]
  show ?case
    by (simp add: NotifyBindings_step [OF Nil(4,5)] quiet check_events_at)
next
  case (Cons c pre)
  from Cons.prems have ne: "c \<noteq> this" by simp
  from Cons.prems obtain r where r: "objs s c = Some r" by auto
  let ?s1 = "s\<lparr>objs := (objs s)(c \<mapsto> r\<lparr>m_value := offered_update r v\<rparr>),
                trace := trace s @ check_events c r v\<rparr>"
  from Cons.prems have cb: "c \<noteq> b" and cpre: "c \<notin> set pre" by auto
  have 1: "distinct (pre @ b # post)" using Cons.prems(1) by simp
  have 2: "this \<notin> set pre" using Cons.prems(2) by simp
  have 3: "\<forall>x \<in> set pre. objs ?s1 x \<noteq> None" using Cons.prems(3) by simp
  have 5: "objs ?s1 b = Some q" using Cons.prems(5) cb by simp
  have "filter (\<lambda>e. event_addr e = b)
      (trace (final (NotifyBindings this (pre @ b # post) old (passed_on r v) ?s1))) =
      filter (\<lambda>e. event_addr e = b) (trace ?s1) @
        check_events b q (foldl (\<lambda>w x. passed_on (the (objs ?s1 x)) w) (passed_on r v) pre)"
    by (rule Cons.IH [OF 1 2 3 Cons.prems(4) 5])
  moreover have "foldl (\<lambda>w x. passed_on (the (objs ?s1 x)) w) (passed_on r v) pre =
      foldl (\<lambda>w x. passed_on (the (objs s x)) w) (passed_on r v) pre"
    using cpre by (intro foldl_passed_on_cong) auto
  moreover have "filter (\<lambda>e. event_addr e = b) (trace ?s1) =
      filter (\<lambda>e. event_addr e = b) (trace s)"
    using cb by (simp add: check_events_at)
  ultimately show ?case using r by (simp add: NotifyBindings_step [OF ne r])
qed

subsection \<open>The three ways a write ends\<close>

lemma check_events_eq:
  "m_value p \<noteq> v \<Longrightarrow>
     check_events a p v =
       (case m_coerceCallback p of None \<Rightarrow> [] | Some c \<Rightarrow> [Coerced a v]) @
       (case m_validator p of None \<Rightarrow> [] | Some vd \<Rightarrow> [Validated a (coerced p v)])"
  by (simp add: check_events_def coerce_step_eq validate_step_eq)

lemma check_events_no_Notified: "filter is_Notified (check_events a p v) = []"
  by (simp add: check_events_def coerce_step_eq validate_step_eq split: option.splits)

lemma assign_rejected:
  assumes "objs s a = Some p" and "m_value p \<noteq> v" and "\<not> accepts p (coerced p v)"
  shows "assign a v s =
           Inr (validated p (coerced p v), s\<lparr>trace := trace s @ check_events a p v\<rparr>)"
  using assms by (simp add: assign_def coerce_step_eq validate_step_eq check_events_def)

lemma assign_committed:
  assumes "objs s a = Some p" and "m_value p \<noteq> v" and "accepts p (coerced p v)"
  shows "assign a v s =
           NotifyBindings a (m_bindings p)
             (fst (callbacks_result (m_callbacks p) (m_value p) (validated p (coerced p v))))
             (snd (callbacks_result (m_callbacks p) (m_value p) (validated p (coerced p v))))
             (s\<lparr>objs := (objs s)(a \<mapsto> p\<lparr>m_value := validated p (coerced p v)\<rparr>),
                trace := trace s @ check_events a p v @
                  callback_events a (m_callbacks p) (m_value p) (validated p (coerced p v))\<rparr>)"
  using assms
  by (simp add: assign_def coerce_step_eq validate_step_eq check_events_def NotifyCallbacks_eq
      Let_def)

lemma new_events_append: "trace s' = trace s @ evs \<Longrightarrow> new_events s s' = evs"
  by (simp add: new_events_def)

text \<open>The events of a committed write: the checks of the source, its callbacks, then checks
  at bound properties other than the source.\<close>

lemma assign_committed_events:
  assumes "objs s a = Some p" and "m_value p \<noteq> v" and "accepts p (coerced p v)"
  shows "\<exists>evs. new_events s (final (assign a v s)) =
            check_events a p v @
            callback_events a (m_callbacks p) (m_value p) (validated p (coerced p v)) @ evs \<and>
          (\<forall>e \<in> set evs. \<not> is_Notified e \<and> event_addr e \<in> set (m_bindings p) \<and> event_addr e \<noteq> a)"
proof -
  define v2 where "v2 = validated p (coerced p v)"
  define s1 where "s1 = s\<lparr>objs := (objs s)(a \<mapsto> p\<lparr>m_value := v2\<rparr>),
                trace := trace s @ check_events a p v @
                  callback_events a (m_callbacks p) (m_value p) v2\<rparr>"
  define r where "r = NotifyBindings a (m_bindings p)
        (fst (callbacks_result (m_callbacks p) (m_value p) v2))
        (snd (callbacks_result (m_callbacks p) (m_value p) v2)) s1"
  have run: "assign a v s = r"
    unfolding r_def s1_def v2_def by (rule assign_committed [OF assms])
  obtain evs where evs: "trace (final r) = trace s1 @ evs"
    "\<forall>e \<in> set evs. \<not> is_Notified e \<and> event_addr e \<in> set (m_bindings p) \<and> event_addr e \<noteq> a"
    unfolding r_def
    using NotifyBindings_trace [of a "m_bindings p"
        "fst (callbacks_result (m_callbacks p) (m_value p) v2)"
        "snd (callbacks_result (m_callbacks p) (m_value p) v2)" s1]
    by (elim exE conjE)
  have "trace s1 = trace s @ check_events a p v @ callback_events a (m_callbacks p) (m_value p) v2"
    by (simp add: s1_def)
  with evs(1) have "trace (final r) =
      trace s @ (check_events a p v @ callback_events a (m_callbacks p) (m_value p) v2 @ evs)"
    by simp
  then have "new_events s (final r) =
      check_events a p v @ callback_events a (m_callbacks p) (m_value p) v2 @ evs"
    by (rule new_events_append)
  with evs(2) show ?thesis unfolding run v2_def by blast
qed

lemma notified_at_quiet: "\<forall>e \<in> set es. \<not> is_Notified e \<Longrightarrow> notified_at a es = []"
  by (induction a es rule: notified_at.induct) simp_all

lemma check_events_quiet: "e \<in> set (check_events a p v) \<Longrightarrow> \<not> is_Notified e \<and> event_addr e = a"
  by (rule check_events_shape)

lemma assign_committed_notified:
  assumes "objs s a = Some p" and "m_value p \<noteq> v" and "accepts p (coerced p v)"
  shows "notified_at d (new_events s (final (assign a v s))) =
           (if d = a then callable_ids (m_callbacks p) else [])"
proof -
  from assign_committed_events [OF assms] obtain evs where
    ev: "new_events s (final (assign a v s)) =
          check_events a p v @
          callback_events a (m_callbacks p) (m_value p) (validated p (coerced p v)) @ evs"
    and sh: "\<forall>e \<in> set evs. \<not> is_Notified e \<and> event_addr e \<in> set (m_bindings p) \<and> event_addr e \<noteq> a"
    by blast
  have "notified_at d (check_events a p v) = []"
    by (rule notified_at_quiet) (simp add: check_events_quiet)
  moreover have "notified_at d evs = []"
    by (rule notified_at_quiet) (simp add: sh)
  ultimately show ?thesis
    unfolding ev by (simp add: notified_at_append notified_at_callback_events)
qed

lemma assign_committed_source:
  assumes "objs s a = Some p" and "m_value p \<noteq> v" and "accepts p (coerced p v)"
  shows "objs (final (assign a v s)) a = Some (p\<lparr>m_value := validated p (coerced p v)\<rparr>)"
  by (simp add: assign_committed [OF assms] NotifyBindings_this)

lemma assign_committed_frame:
  assumes "objs s a = Some p" and "m_value p \<noteq> v" and "accepts p (coerced p v)"
    and "d \<noteq> a" and "d \<notin> set (m_bindings p)"
  shows "objs (final (assign a v s)) d = objs s d"
  using assms(4,5) by (simp add: assign_committed [OF assms(1-3)] NotifyBindings_frame)

lemma assign_committed_target:
  assumes "objs s a = Some p" and "m_value p \<noteq> v" and "accepts p (coerced p v)"
    and "distinct (m_bindings p)" and "b \<noteq> a" and "objs s b = Some q"
  shows "\<exists>w. objs (final (assign a v s)) b = Some (q\<lparr>m_value := offered_update q w\<rparr>)"
proof -
  let ?s1 = "s\<lparr>objs := (objs s)(a \<mapsto> p\<lparr>m_value := validated p (coerced p v)\<rparr>),
                trace := trace s @ check_events a p v @
                  callback_events a (m_callbacks p) (m_value p) (validated p (coerced p v))\<rparr>"
  have "objs ?s1 b = Some q" using assms(5,6) by simp
  from NotifyBindings_target [OF assms(4) this]
  show ?thesis by (simp add: assign_committed [OF assms(1-3)])
qed

lemma assign_committed_first_target:
  assumes "objs s a = Some p" and "m_value p \<noteq> v" and "accepts p (coerced p v)"
    and "m_bindings p = b # rest" and "b \<notin> set rest" and "b \<noteq> a" and "objs s b = Some q"
  shows "objs (final (assign a v s)) b =
           Some (q\<lparr>m_value := offered_update q
             (snd (callbacks_result (m_callbacks p) (m_value p) (validated p (coerced p v))))\<rparr>)"
proof -
  let ?s1 = "s\<lparr>objs := (objs s)(a \<mapsto> p\<lparr>m_value := validated p (coerced p v)\<rparr>),
                trace := trace s @ check_events a p v @
                  callback_events a (m_callbacks p) (m_value p) (validated p (coerced p v))\<rparr>"
  have "objs ?s1 b = Some q" using assms(6,7) by simp
  from NotifyBindings_head [OF assms(6) this assms(5)]
  show ?thesis by (simp add: assign_committed [OF assms(1-3)] assms(4))
qed

lemma assign_committed_silent_at:
  assumes "objs s a = Some p" and "m_value p \<noteq> v" and "accepts p (coerced p v)"
    and "d \<noteq> a" and "d \<notin> set (m_bindings p)"
  shows "filter (\<lambda>e. event_addr e = d) (new_events s (final (assign a v s))) = []"
proof -
  from assign_committed_events [OF assms(1-3)] obtain evs where
    ev: "new_events s (final (assign a v s)) =
          check_events a p v @
          callback_events a (m_callbacks p) (m_value p) (validated p (coerced p v)) @ evs"
    and sh: "\<forall>e \<in> set evs. \<not> is_Notified e \<and> event_addr e \<in> set (m_bindings p) \<and> event_addr e \<noteq> a"
    by blast
  have "\<forall>e \<in> set (check_events a p v). event_addr e \<noteq> d"
    using assms(4) check_events_quiet [of _ a p v] by auto
  moreover have "\<forall>e \<in> set (callback_events a (m_callbacks p) (m_value p)
      (validated p (coerced p v))). event_addr e \<noteq> d"
    using assms(4) callback_events_addr [of _ a "m_callbacks p" "m_value p"
        "validated p (coerced p v)"] by auto
  moreover have "\<forall>e \<in> set evs. event_addr e \<noteq> d"
    using sh assms(5) by auto
  ultimately show ?thesis unfolding ev by (simp add: filter_empty_conv)
qed

text \<open>Unfolding a write on a concrete machine.\<close>

lemmas run_write =
  assign_def coerce_step_def validate_step_def NotifyBindings.simps(2) Let_def final_def
  new_events_def coerced_def accepts_def validated_def offered_update_def passed_on_def
  callbacks_result_def callback_events_def Property_new_def observer_def

section \<open>The claims about a write\<close>

text \<open>C1. When the validator of a property rejects the coerced candidate, the write returns
  normally, every object of the store is as before (so the stored value and the values of the
  bound properties are unchanged), and no change callback is called.\<close>

theorem rejected_write_is_silent:
  assumes "objs s a = Some p" and "m_validator p = Some vd" and "\<not> fst (vd (coerced p v))"
  shows "\<exists>v' s'. assign a v s = Inr (v', s') \<and> objs s' = objs s \<and>
           read a s' = Some (m_value p) \<and> filter is_Notified (new_events s s') = []"
proof (cases "m_value p = v")
  case True
  with assms(1) have "assign a v s = Inr (v, s)" by (simp add: assign_def)
  with assms(1) show ?thesis by (simp add: read_def new_events_def)
next
  case False
  from assms(2,3) have "\<not> accepts p (coerced p v)"
    by (simp add: accepts_def validate_step_def)
  from assign_rejected [OF assms(1) False this] assms(1) show ?thesis
    by (simp add: read_def new_events_def check_events_no_Notified)
qed

theorem rejected_write_is_silent_witness:
  "objs guarded_machine 0 = Some guarded_property \<and>
   m_validator guarded_property = Some positive_validator \<and>
   \<not> fst (positive_validator (coerced guarded_property (-1))) \<and>
   (\<exists>v' s'. assign 0 (-1) guarded_machine = Inr (v', s') \<and> objs s' = objs guarded_machine \<and>
      read 0 s' = Some 5 \<and> filter is_Notified (new_events guarded_machine s') = [])"
  using rejected_write_is_silent [of guarded_machine 0 guarded_property positive_validator "-1"]
  by (simp add: guarded_machine_def guarded_property_def Property_new_def AddChangeCallback_def
      positive_validator_def coerced_def coerce_step_def)

text \<open>C3. A write of a value equal to the stored one returns at once: the whole machine, trace
  included, is as before, so no coercer, validator or callback ran and no bound property was
  touched, whatever the coercer would have made of the value.\<close>

theorem equal_write_is_noop:
  "objs s a = Some p \<Longrightarrow> m_value p = v \<Longrightarrow> assign a v s = Inr (v, s)"
  by (simp add: assign_def)

theorem equal_write_is_noop_witness:
  "objs clamped_machine 0 = Some clamped_property \<and> m_value clamped_property = 0 \<and>
   clamp_0_99 (-4) \<noteq> -4 \<and>
   assign 0 0 clamped_machine = Inr (0, clamped_machine)"
  using equal_write_is_noop [of clamped_machine 0 clamped_property 0]
  by (simp add: clamped_machine_def clamped_property_def Property_new_def clamp_0_99_def)

text \<open>The accepted half of the same scenario: the write of 10 is stored and the callback is
  called once, with the old value 5 and the new value 10.\<close>

lemma accepted_write_scenario:
  "assign 0 10 guarded_machine =
     Inr (10, \<lparr>objs = [0 \<mapsto> guarded_property\<lparr>m_value := 10\<rparr>],
               trace = [Validated 0 10, Notified 0 0 5 10]\<rparr>)"
  by (simp add: assign_def coerce_step_def validate_step_def guarded_machine_def
      guarded_property_def Property_new_def AddChangeCallback_def positive_validator_def
      observer_def)

text \<open>C2. With a coercer and a validator set, a write of a value that differs from the stored
  one calls the coercer on the raw value and then the validator on the coerced value, and the
  validator of that property is called on nothing else during the write.\<close>

theorem validator_sees_coerced_value:
  assumes "objs s a = Some p" and "m_coerceCallback p = Some c" and "m_validator p = Some vd"
    and "m_value p \<noteq> v"
  shows "take 2 (new_events s (final (assign a v s))) = [Coerced a v, Validated a (c v)] \<and>
         validated_at a (new_events s (final (assign a v s))) = [c v]"
proof -
  have cv: "coerced p v = c v" using assms(2) by (simp add: coerced_def coerce_step_def)
  have ce: "check_events a p v = [Coerced a v, Validated a (c v)]"
    using assms(2,3,4) cv by (simp add: check_events_eq)
  show ?thesis
  proof (cases "accepts p (coerced p v)")
    case False
    from assign_rejected [OF assms(1,4) False]
    have "new_events s (final (assign a v s)) = check_events a p v"
      by (simp add: final_def new_events_def)
    with ce show ?thesis by simp
  next
    case True
    from assign_committed_events [OF assms(1,4) True] obtain evs where
      ev: "new_events s (final (assign a v s)) =
            check_events a p v @
            callback_events a (m_callbacks p) (m_value p) (validated p (coerced p v)) @ evs"
      and sh: "\<forall>e \<in> set evs. \<not> is_Notified e \<and> event_addr e \<in> set (m_bindings p) \<and> event_addr e \<noteq> a"
      by blast
    have "validated_at a (callback_events a (m_callbacks p) (m_value p)
        (validated p (coerced p v)) @ evs) = []"
      using sh by (simp add: validated_at_append validated_at_callback_events validated_at_elsewhere)
    moreover have "new_events s (final (assign a v s)) =
        Coerced a v # Validated a (c v) #
          (callback_events a (m_callbacks p) (m_value p) (validated p (coerced p v)) @ evs)"
      unfolding ev ce by simp
    ultimately show ?thesis by simp
  qed
qed

theorem validator_sees_coerced_value_witness:
  "objs clamped_machine 0 = Some clamped_property \<and>
   m_coerceCallback clamped_property = Some clamp_0_99 \<and>
   m_validator clamped_property = Some even_validator \<and>
   m_value clamped_property \<noteq> 101 \<and>
   take 2 (new_events clamped_machine (final (assign 0 101 clamped_machine))) =
     [Coerced 0 101, Validated 0 99] \<and>
   validated_at 0 (new_events clamped_machine (final (assign 0 101 clamped_machine))) = [99]"
  using validator_sees_coerced_value [of clamped_machine 0 clamped_property clamp_0_99
      even_validator 101]
  by (simp add: clamped_machine_def clamped_property_def Property_new_def clamp_0_99_def)

text \<open>C4. Let A be bound to B and B to C, with C neither A itself nor a direct target of A.
  A committed write to A leaves C exactly as it was and makes no call at C; B keeps its
  callbacks, its bindings and its identifiers and none of its callbacks is called; the value
  B holds afterwards is what B's own comparison, coercer and validator make of the value it
  was offered, and when B is the target visited first that value is the one left by the
  callbacks of A.\<close>

theorem propagation_is_one_hop:
  assumes "objs s a = Some pa" and "objs s b = Some pb" and "objs s c = Some pc"
    and "b \<in> set (m_bindings pa)" and "c \<in> set (m_bindings pb)"
    and "distinct (m_bindings pa)" and "b \<noteq> a" and "c \<noteq> a" and "c \<notin> set (m_bindings pa)"
    and "m_value pa \<noteq> v" and "accepts pa (coerced pa v)"
  shows "objs (final (assign a v s)) c = Some pc \<and>
         filter (\<lambda>e. event_addr e = c) (new_events s (final (assign a v s))) = [] \<and>
         notified_at b (new_events s (final (assign a v s))) = [] \<and>
         (\<exists>w. objs (final (assign a v s)) b = Some (pb\<lparr>m_value := offered_update pb w\<rparr>)) \<and>
         (hd (m_bindings pa) = b \<longrightarrow>
            objs (final (assign a v s)) b =
              Some (pb\<lparr>m_value := offered_update pb
                (snd (callbacks_result (m_callbacks pa) (m_value pa)
                   (validated pa (coerced pa v))))\<rparr>))"
proof -
  have committed: "objs s a = Some pa" "m_value pa \<noteq> v" "accepts pa (coerced pa v)"
    using assms by simp_all
  have "objs (final (assign a v s)) c = Some pc"
    using assign_committed_frame [OF committed \<open>c \<noteq> a\<close> \<open>c \<notin> set (m_bindings pa)\<close>] assms(3)
    by simp
  moreover have "filter (\<lambda>e. event_addr e = c) (new_events s (final (assign a v s))) = []"
    by (rule assign_committed_silent_at [OF committed \<open>c \<noteq> a\<close> \<open>c \<notin> set (m_bindings pa)\<close>])
  moreover have "notified_at b (new_events s (final (assign a v s))) = []"
    using \<open>b \<noteq> a\<close> by (simp add: assign_committed_notified [OF committed])
  moreover have "\<exists>w. objs (final (assign a v s)) b = Some (pb\<lparr>m_value := offered_update pb w\<rparr>)"
    by (rule assign_committed_target [OF committed assms(6) \<open>b \<noteq> a\<close> assms(2)])
  moreover have "objs (final (assign a v s)) b =
      Some (pb\<lparr>m_value := offered_update pb
        (snd (callbacks_result (m_callbacks pa) (m_value pa) (validated pa (coerced pa v))))\<rparr>)"
    if "hd (m_bindings pa) = b"
  proof -
    from that assms(4) obtain rest where rest: "m_bindings pa = b # rest"
      by (cases "m_bindings pa") auto
    with assms(6) have "b \<notin> set rest" by simp
    from assign_committed_first_target [OF committed rest this \<open>b \<noteq> a\<close> assms(2)]
    show ?thesis .
  qed
  ultimately show ?thesis by blast
qed

theorem propagation_is_one_hop_witness:
  "objs chain_machine 0 = Some chain_A \<and> objs chain_machine 1 = Some chain_B \<and>
   objs chain_machine 2 = Some chain_C \<and>
   1 \<in> set (m_bindings chain_A) \<and> 2 \<in> set (m_bindings chain_B) \<and>
   distinct (m_bindings chain_A) \<and> 2 \<notin> set (m_bindings chain_A) \<and>
   m_value chain_A \<noteq> 150 \<and> accepts chain_A (coerced chain_A 150) \<and>
   objs (final (assign 0 150 chain_machine)) 2 = Some chain_C \<and>
   filter (\<lambda>e. event_addr e = 2) (new_events chain_machine (final (assign 0 150 chain_machine))) = [] \<and>
   notified_at 1 (new_events chain_machine (final (assign 0 150 chain_machine))) = [] \<and>
   objs (final (assign 0 150 chain_machine)) 1 = Some (chain_B\<lparr>m_value := 99\<rparr>) \<and>
   new_events chain_machine (final (assign 0 150 chain_machine)) =
     [Notified 0 0 1 150, Coerced 1 150]"
  using propagation_is_one_hop [of chain_machine 0 chain_A 1 chain_B 2 chain_C 150]
  by (simp add: run_write chain_machine_def chain_A_def chain_B_def chain_C_def clamp_0_99_def)

subsection \<open>Two-way binding\<close>

lemma AddBind_eq:
  assumes "objs s0 a = Some pa0" and "objs s0 b = Some pb0" and "a \<noteq> b"
  shows "AddBind a b s0 =
           Inr (s0\<lparr>objs := (objs s0)
                  (a \<mapsto> pa0\<lparr>m_bindings := List.insert b (m_bindings pa0)\<rparr>,
                   b \<mapsto> pb0\<lparr>m_bindings := List.insert a (m_bindings pb0)\<rparr>)\<rparr>)"
  using assms by (simp add: AddBind_def AddOneWayBind_def AddOneWayToSourceBind_def)

lemma coerced_bindings [simp]: "coerced (p\<lparr>m_bindings := bs\<rparr>) v = coerced p v"
  by (simp add: coerced_def coerce_step_def)

lemma accepts_bindings [simp]: "accepts (p\<lparr>m_bindings := bs\<rparr>) v = accepts p v"
  by (simp add: accepts_def validate_step_def)

lemma validated_bindings [simp]: "validated (p\<lparr>m_bindings := bs\<rparr>) v = validated p v"
  by (simp add: validated_def validate_step_def)

text \<open>One direction of a pair: a committed write to the source.\<close>

lemma bound_write:
  assumes "objs s a = Some pa" and "objs s b = Some pb" and "a \<noteq> b"
    and "distinct (m_bindings pa)"
    and "m_value pa \<noteq> v" and "accepts pa (coerced pa v)"
  shows "(\<exists>w. objs (final (assign a v s)) b = Some (pb\<lparr>m_value := offered_update pb w\<rparr>)) \<and>
         (m_bindings pa = [b] \<longrightarrow>
            objs (final (assign a v s)) b =
              Some (pb\<lparr>m_value := offered_update pb
                (snd (callbacks_result (m_callbacks pa) (m_value pa)
                   (validated pa (coerced pa v))))\<rparr>)) \<and>
         notified_at a (new_events s (final (assign a v s))) = callable_ids (m_callbacks pa) \<and>
         notified_at b (new_events s (final (assign a v s))) = []"
proof -
  have committed: "objs s a = Some pa" "m_value pa \<noteq> v" "accepts pa (coerced pa v)"
    using assms by simp_all
  have ba: "b \<noteq> a" using assms(3) by simp
  have "\<exists>w. objs (final (assign a v s)) b = Some (pb\<lparr>m_value := offered_update pb w\<rparr>)"
    by (rule assign_committed_target [OF committed assms(4) ba assms(2)])
  moreover have "objs (final (assign a v s)) b =
      Some (pb\<lparr>m_value := offered_update pb
        (snd (callbacks_result (m_callbacks pa) (m_value pa) (validated pa (coerced pa v))))\<rparr>)"
    if "m_bindings pa = [b]"
    using assign_committed_first_target [OF committed that _ ba assms(2)] by simp
  moreover have "notified_at a (new_events s (final (assign a v s))) = callable_ids (m_callbacks pa)"
    by (simp add: assign_committed_notified [OF committed])
  moreover have "notified_at b (new_events s (final (assign a v s))) = []"
    using ba by (simp add: assign_committed_notified [OF committed])
  ultimately show ?thesis by blast
qed

text \<open>C5. \<^verbatim>\<open>AddBind\<close> on two distinct properties A and B makes each a target of the other and
  changes no value. Afterwards a committed write to A leaves in B what B's own comparison,
  coercer and validator make of the value it is offered (the value left by the callbacks of A
  when B is the only target of A), calls each callable callback of A once and calls no
  callback of B; and the same holds with A and B exchanged.\<close>

theorem two_way_bind_symmetry:
  assumes "objs s0 a = Some pa0" and "objs s0 b = Some pb0" and "a \<noteq> b"
    and "distinct (m_bindings pa0)" and "distinct (m_bindings pb0)"
    and "pa = pa0\<lparr>m_bindings := List.insert b (m_bindings pa0)\<rparr>"
    and "pb = pb0\<lparr>m_bindings := List.insert a (m_bindings pb0)\<rparr>"
    and "m_value pa0 \<noteq> v" and "accepts pa0 (coerced pa0 v)"
    and "m_value pb0 \<noteq> u" and "accepts pb0 (coerced pb0 u)"
  shows "\<exists>s. AddBind a b s0 = Inr s \<and> objs s a = Some pa \<and> objs s b = Some pb \<and>
           b \<in> set (m_bindings pa) \<and> a \<in> set (m_bindings pb) \<and>
           (\<exists>w. objs (final (assign a v s)) b = Some (pb\<lparr>m_value := offered_update pb w\<rparr>)) \<and>
           (m_bindings pa0 = [] \<longrightarrow>
              objs (final (assign a v s)) b =
                Some (pb\<lparr>m_value := offered_update pb
                  (snd (callbacks_result (m_callbacks pa) (m_value pa)
                     (validated pa (coerced pa v))))\<rparr>)) \<and>
           notified_at a (new_events s (final (assign a v s))) = callable_ids (m_callbacks pa) \<and>
           notified_at b (new_events s (final (assign a v s))) = [] \<and>
           (\<exists>w. objs (final (assign b u s)) a = Some (pa\<lparr>m_value := offered_update pa w\<rparr>)) \<and>
           (m_bindings pb0 = [] \<longrightarrow>
              objs (final (assign b u s)) a =
                Some (pa\<lparr>m_value := offered_update pa
                  (snd (callbacks_result (m_callbacks pb) (m_value pb)
                     (validated pb (coerced pb u))))\<rparr>)) \<and>
           notified_at b (new_events s (final (assign b u s))) = callable_ids (m_callbacks pb) \<and>
           notified_at a (new_events s (final (assign b u s))) = []"
proof -
  define s where "s = s0\<lparr>objs := (objs s0)(a \<mapsto> pa, b \<mapsto> pb)\<rparr>"
  have bind: "AddBind a b s0 = Inr s"
    unfolding s_def assms(6,7) by (rule AddBind_eq [OF assms(1-3)])
  have oa: "objs s a = Some pa" and ob: "objs s b = Some pb"
    using assms(3) by (simp_all add: s_def)
  have da: "distinct (m_bindings pa)" and db: "distinct (m_bindings pb)"
    using assms(4,5) by (simp_all add: assms(6,7))
  have ca: "m_value pa \<noteq> v" "accepts pa (coerced pa v)"
    using assms(8,9) by (simp_all add: assms(6))
  have cb: "m_value pb \<noteq> u" "accepts pb (coerced pb u)"
    using assms(10,11) by (simp_all add: assms(7))
  have sole_a: "m_bindings pa = [b]" if "m_bindings pa0 = []"
    using that by (simp add: assms(6))
  have sole_b: "m_bindings pb = [a]" if "m_bindings pb0 = []"
    using that by (simp add: assms(7))
  have mem: "b \<in> set (m_bindings pa)" "a \<in> set (m_bindings pb)"
    by (simp_all add: assms(6,7))
  note ab = bound_write [OF oa ob assms(3) da ca]
  note ba = bound_write [OF ob oa assms(3) [symmetric] db cb]
  show ?thesis
    using bind oa ob mem ab ba sole_a sole_b by (intro exI [of _ s]) blast
qed

theorem two_way_bind_symmetry_witness:
  "objs pair_machine 0 = Some pair_A \<and> objs pair_machine 1 = Some pair_B \<and> (0::nat) \<noteq> 1 \<and>
   distinct (m_bindings pair_A) \<and> distinct (m_bindings pair_B) \<and>
   m_value pair_A \<noteq> 150 \<and> accepts pair_A (coerced pair_A 150) \<and>
   m_value pair_B \<noteq> 7 \<and> accepts pair_B (coerced pair_B 7) \<and>
   (\<exists>s. AddBind 0 1 pair_machine = Inr s \<and>
      objs s 0 = Some (pair_A\<lparr>m_bindings := [1]\<rparr>) \<and>
      objs s 1 = Some (pair_B\<lparr>m_bindings := [0]\<rparr>) \<and>
      objs (final (assign 0 150 s)) 1 = Some (pair_B\<lparr>m_bindings := [0], m_value := 99\<rparr>) \<and>
      notified_at 0 (new_events s (final (assign 0 150 s))) = [0] \<and>
      notified_at 1 (new_events s (final (assign 0 150 s))) = [] \<and>
      objs (final (assign 1 7 s)) 0 = Some (pair_A\<lparr>m_bindings := [1], m_value := 7\<rparr>) \<and>
      notified_at 1 (new_events s (final (assign 1 7 s))) = [0] \<and>
      notified_at 0 (new_events s (final (assign 1 7 s))) = [])"
  using two_way_bind_symmetry [of pair_machine 0 pair_A 1 pair_B
      "pair_A\<lparr>m_bindings := [1]\<rparr>" "pair_B\<lparr>m_bindings := [0]\<rparr>" 150 7]
  by (simp add: pair_machine_def pair_A_def pair_B_def clamp_0_99_def
      AddBind_def AddOneWayBind_def AddOneWayToSourceBind_def
      assign_def coerce_step_def validate_step_def NotifyBindings.simps(2) Let_def final_def
      new_events_def coerced_def accepts_def validated_def offered_update_def callbacks_result_def
      Property_new_def observer_def)

section \<open>The claims about the callback registry\<close>

lemma AddChangeCallback_empty:
  "m_availableIDs p = [] \<Longrightarrow>
     AddChangeCallback c p =
       (nextCallbackID p,
        p\<lparr>nextCallbackID := nextCallbackID p + 1,
          m_callbacks := AList.update (nextCallbackID p) c (m_callbacks p)\<rparr>)"
  by (simp add: AddChangeCallback_def)

lemma AddChangeCallback_reuse:
  "m_availableIDs p = i # rest \<Longrightarrow>
     AddChangeCallback c p =
       (i, p\<lparr>m_availableIDs := rest, m_callbacks := AList.update i c (m_callbacks p)\<rparr>)"
  by (simp add: AddChangeCallback_def)

lemma fresh_ids_shift:
  "(x::CallbackID) # map (\<lambda>k. x + 1 + word_of_nat k) [0..<n] =
     map (\<lambda>k. x + word_of_nat k) [0..<Suc n]"
proof -
  have "[0..<Suc n] = 0 # map Suc [0..<n]"
    by (simp add: upt_conv_Cons map_Suc_upt del: upt_Suc)
  then have "map (\<lambda>k. x + word_of_nat k) [0..<Suc n] =
      x # map (\<lambda>k. x + word_of_nat (Suc k)) [0..<n]"
    by (simp add: comp_def del: upt_Suc)
  also have "\<dots> = x # map (\<lambda>k. x + 1 + word_of_nat k) [0..<n]"
    by (simp add: add.assoc)
  finally show ?thesis by simp
qed

lemma add_all_ids:
  "fst (add_all cbs p) =
     take (length cbs) (m_availableIDs p) @
     map (\<lambda>k. nextCallbackID p + word_of_nat k) [0..<length cbs - length (m_availableIDs p)]"
proof (induction cbs arbitrary: p)
  case Nil
  show ?case by simp
next
  case (Cons c cbs)
  show ?case
  proof (cases "m_availableIDs p")
    case Nil
    let ?p' = "p\<lparr>nextCallbackID := nextCallbackID p + 1,
                 m_callbacks := AList.update (nextCallbackID p) c (m_callbacks p)\<rparr>"
    have "fst (add_all (c # cbs) p) = nextCallbackID p # fst (add_all cbs ?p')"
      by (simp add: AddChangeCallback_empty [OF Nil] split: prod.splits)
    also have "fst (add_all cbs ?p') =
        map (\<lambda>k. nextCallbackID p + 1 + word_of_nat k) [0..<length cbs]"
      using Nil by (simp add: Cons.IH)
    finally show ?thesis using Nil fresh_ids_shift [of "nextCallbackID p" "length cbs"]
      by (simp del: upt_Suc)
  next
    case (Cons i rest)
    let ?p' = "p\<lparr>m_availableIDs := rest, m_callbacks := AList.update i c (m_callbacks p)\<rparr>"
    have "fst (add_all (c # cbs) p) = i # fst (add_all cbs ?p')"
      by (simp add: AddChangeCallback_reuse [OF Cons] split: prod.splits)
    then show ?thesis using Cons by (simp add: Cons.IH)
  qed
qed

lemma RemoveChangeCallback_id_pushes:
  "i \<in> ids_registered p \<Longrightarrow>
     m_availableIDs (RemoveChangeCallback_id i p) = m_availableIDs p @ [i]"
  by (simp add: RemoveChangeCallback_id_def ids_registered_def)

text \<open>C7. On a property with no callback, an empty queue of released identifiers and the
  counter at 0, successive \<^verbatim>\<open>AddChangeCallback\<close> calls return 0, 1, 2, ...; in any state they
  return the released identifiers front first and then mint from the counter; removing a
  registered identifier puts it at the back of that queue; and add A, remove 0, add B, add C
  gives A the identifier 0, B the identifier 0 and C the identifier 1.\<close>

theorem listener_ids_fifo_reuse:
  assumes "m_callbacks p = []" and "m_availableIDs p = []" and "nextCallbackID p = 0"
  shows "fst (add_all cbs p) = map word_of_nat [0..<length cbs] \<and>
         fst (add_all cbs q) =
           take (length cbs) (m_availableIDs q) @
           map (\<lambda>k. nextCallbackID q + word_of_nat k) [0..<length cbs - length (m_availableIDs q)] \<and>
         (i \<in> ids_registered q \<longrightarrow>
            m_availableIDs (RemoveChangeCallback_id i q) = m_availableIDs q @ [i]) \<and>
         fst (AddChangeCallback A p) = 0 \<and>
         fst (AddChangeCallback B (RemoveChangeCallback_id 0 (snd (AddChangeCallback A p)))) = 0 \<and>
         fst (AddChangeCallback C (snd (AddChangeCallback B
                (RemoveChangeCallback_id 0 (snd (AddChangeCallback A p)))))) = 1"
proof -
  have "fst (add_all cbs p) = map word_of_nat [0..<length cbs]"
    using assms by (simp add: add_all_ids)
  moreover note add_all_ids [of cbs q]
  moreover have "i \<in> ids_registered q \<longrightarrow>
      m_availableIDs (RemoveChangeCallback_id i q) = m_availableIDs q @ [i]"
    by (simp add: RemoveChangeCallback_id_pushes)
  moreover have "fst (AddChangeCallback A p) = 0"
    using assms by (simp add: AddChangeCallback_def)
  moreover have "fst (AddChangeCallback B
      (RemoveChangeCallback_id 0 (snd (AddChangeCallback A p)))) = 0"
    using assms by (simp add: AddChangeCallback_def RemoveChangeCallback_id_def)
  moreover have "fst (AddChangeCallback C (snd (AddChangeCallback B
      (RemoveChangeCallback_id 0 (snd (AddChangeCallback A p)))))) = 1"
    using assms by (simp add: AddChangeCallback_def RemoveChangeCallback_id_def)
  ultimately show ?thesis by blast
qed

theorem listener_ids_fifo_reuse_witness:
  "m_callbacks fresh_property = [] \<and> m_availableIDs fresh_property = [] \<and>
   nextCallbackID fresh_property = 0 \<and>
   fst (add_all [observer, doubler, observer] fresh_property) = [0, 1, 2] \<and>
   fst (add_all [doubler, observer, doubler]
     (RemoveChangeCallback_id 0 (RemoveChangeCallback_id 1
        (snd (add_all [observer, doubler, observer] fresh_property))))) = [1, 0, 3] \<and>
   m_availableIDs (RemoveChangeCallback_id 0 (RemoveChangeCallback_id 1
        (snd (add_all [observer, doubler, observer] fresh_property)))) = [1, 0] \<and>
   fst (AddChangeCallback observer fresh_property) = 0 \<and>
   fst (AddChangeCallback doubler
     (RemoveChangeCallback_id 0 (snd (AddChangeCallback observer fresh_property)))) = 0 \<and>
   fst (AddChangeCallback observer (snd (AddChangeCallback doubler
     (RemoveChangeCallback_id 0 (snd (AddChangeCallback observer fresh_property)))))) = 1"
  using listener_ids_fifo_reuse [of fresh_property "[observer, doubler, observer]"
      "RemoveChangeCallback_id 0 (RemoveChangeCallback_id 1
        (snd (add_all [observer, doubler, observer] fresh_property)))" 1 observer doubler observer]
  by (simp add: fresh_property_def Property_new_def AddChangeCallback_def
      RemoveChangeCallback_id_def observer_def doubler_def)

subsection \<open>Registered and released identifiers\<close>

text \<open>The invariant that carries disjointness through the three calls: the keys of the map
  are unique, no identifier is queued twice, and no queued identifier is registered.\<close>

lemma erase_first_match_keys:
  "erase_first_match c cs = Some (i, cs') \<Longrightarrow>
     i \<in> fst ` set cs \<and> fst ` set cs' \<subseteq> fst ` set cs \<and>
     (distinct (map fst cs) \<longrightarrow> distinct (map fst cs') \<and> i \<notin> fst ` set cs')"
proof (induction cs arbitrary: i cs')
  case Nil
  then show ?case by simp
next
  case (Cons e cs)
  obtain j d where e: "e = (j, d)" by (cases e)
  show ?case
  proof (cases "same_target c d")
    case True
    with Cons.prems e have "i = j" "cs' = cs" by simp_all
    with e show ?thesis by auto
  next
    case False
    with Cons.prems e obtain cs'' where
      sub: "erase_first_match c cs = Some (i, cs'')" and cs': "cs' = (j, d) # cs''"
      by (auto split: option.splits)
    from Cons.IH [OF sub] have ih:
      "i \<in> fst ` set cs" "fst ` set cs'' \<subseteq> fst ` set cs"
      "distinct (map fst cs) \<longrightarrow> distinct (map fst cs'') \<and> i \<notin> fst ` set cs''"
      by simp_all
    show ?thesis
    proof (intro conjI impI)
      show "i \<in> fst ` set (e # cs)" using ih(1) by simp
      show "fst ` set cs' \<subseteq> fst ` set (e # cs)" using ih(2) e cs' by auto
    next
      assume d: "distinct (map fst (e # cs))"
      then have "j \<notin> fst ` set cs" "distinct (map fst cs)" using e by auto
      with ih show "distinct (map fst cs')" using cs' by auto
      from \<open>j \<notin> fst ` set cs\<close> ih(1) have "i \<noteq> j" by auto
      with ih(3) \<open>distinct (map fst cs)\<close> show "i \<notin> fst ` set cs'" using cs' by auto
    qed
  qed
qed

lemma keys_delete: "fst ` set (AList.delete k al) = fst ` set al - {k}"
  by (induction al) auto

lemma AddChangeCallback_inv:
  assumes "distinct (map fst (m_callbacks p))" and "distinct (m_availableIDs p)"
    and "ids_disjoint p"
  shows "distinct (map fst (m_callbacks (snd (AddChangeCallback c p)))) \<and>
         distinct (m_availableIDs (snd (AddChangeCallback c p))) \<and>
         ids_disjoint (snd (AddChangeCallback c p))"
proof (cases "m_availableIDs p")
  case Nil
  with assms(1) show ?thesis
    by (simp add: AddChangeCallback_empty ids_disjoint_def distinct_update)
next
  case (Cons i rest)
  with assms show ?thesis
    by (auto simp: AddChangeCallback_reuse ids_disjoint_def ids_registered_def distinct_update
        dom_update)
qed

lemma RemoveChangeCallback_id_inv:
  assumes "distinct (map fst (m_callbacks p))" and "distinct (m_availableIDs p)"
    and "ids_disjoint p"
  shows "distinct (map fst (m_callbacks (RemoveChangeCallback_id i p))) \<and>
         distinct (m_availableIDs (RemoveChangeCallback_id i p)) \<and>
         ids_disjoint (RemoveChangeCallback_id i p)"
  using assms
  by (auto simp: RemoveChangeCallback_id_def ids_disjoint_def ids_registered_def distinct_delete
      keys_delete)

lemma RemoveChangeCallback_fn_inv:
  assumes "distinct (map fst (m_callbacks p))" and "distinct (m_availableIDs p)"
    and "ids_disjoint p"
  shows "distinct (map fst (m_callbacks (RemoveChangeCallback_fn c p))) \<and>
         distinct (m_availableIDs (RemoveChangeCallback_fn c p)) \<and>
         ids_disjoint (RemoveChangeCallback_fn c p)"
proof (cases "erase_first_match c (m_callbacks p)")
  case None
  with assms show ?thesis by (simp add: RemoveChangeCallback_fn_def)
next
  case (Some r)
  obtain i cs' where r: "r = (i, cs')" by (cases r)
  from erase_first_match_keys [OF Some [unfolded r]] assms(1) have k:
    "i \<in> fst ` set (m_callbacks p)" "fst ` set cs' \<subseteq> fst ` set (m_callbacks p)"
    "distinct (map fst cs')" "i \<notin> fst ` set cs'"
    by simp_all
  have "i \<notin> set (m_availableIDs p)"
    using k(1) assms(3) by (auto simp: ids_disjoint_def ids_registered_def)
  moreover have "fst ` set cs' \<inter> set (m_availableIDs p) = {}"
    using k(2) assms(3) by (auto simp: ids_disjoint_def ids_registered_def)
  ultimately show ?thesis
    using Some r k(3,4) assms(2)
    by (simp add: RemoveChangeCallback_fn_def ids_disjoint_def ids_registered_def)
qed

lemma registry_step_inv:
  assumes "distinct (map fst (m_callbacks p))" and "distinct (m_availableIDs p)"
    and "ids_disjoint p"
  shows "distinct (map fst (m_callbacks (registry_step c p))) \<and>
         distinct (m_availableIDs (registry_step c p)) \<and>
         ids_disjoint (registry_step c p)"
proof (cases c)
  case (Add cb)
  with AddChangeCallback_inv [OF assms] show ?thesis by simp
next
  case (RemoveId i)
  with RemoveChangeCallback_id_inv [OF assms] show ?thesis by simp
next
  case (RemoveFn cb)
  with RemoveChangeCallback_fn_inv [OF assms] show ?thesis by simp
qed

lemma registry_run_inv:
  "distinct (map fst (m_callbacks p)) \<Longrightarrow> distinct (m_availableIDs p) \<Longrightarrow> ids_disjoint p \<Longrightarrow>
     distinct (map fst (m_callbacks (registry_run cs p))) \<and>
     distinct (m_availableIDs (registry_run cs p)) \<and>
     ids_disjoint (registry_run cs p)"
proof (induction cs arbitrary: p)
  case Nil
  then show ?case by simp
next
  case (Cons c cs)
  from registry_step_inv [OF Cons.prems, of c] Cons.IH [of "registry_step c p"]
  show ?case by simp
qed

lemma RemoveChangeCallback_id_absent:
  "i \<notin> ids_registered p \<Longrightarrow> RemoveChangeCallback_id i p = p"
  by (simp add: RemoveChangeCallback_id_def ids_registered_def)

text \<open>C8. Starting from a newly constructed property, after any sequence of
  \<^verbatim>\<open>AddChangeCallback\<close>, \<^verbatim>\<open>RemoveChangeCallback\<close> by identifier and \<^verbatim>\<open>RemoveChangeCallback\<close> by
  callback, no identifier is both registered and queued for reuse, and no identifier is
  queued twice; the same holds from any state with unique keys in which it holds; and removing
  an identifier that is not registered changes nothing.\<close>

theorem ids_stay_disjoint:
  "ids_disjoint (registry_run calls (Property_new v validator coerceCallback)) \<and>
   distinct (m_availableIDs (registry_run calls (Property_new v validator coerceCallback))) \<and>
   (distinct (map fst (m_callbacks p)) \<and> distinct (m_availableIDs p) \<and> ids_disjoint p \<longrightarrow>
      ids_disjoint (registry_run calls p) \<and> distinct (m_availableIDs (registry_run calls p))) \<and>
   (i \<notin> ids_registered p \<longrightarrow> RemoveChangeCallback_id i p = p)"
proof -
  have "distinct (map fst (m_callbacks (Property_new v validator coerceCallback)))"
    "distinct (m_availableIDs (Property_new v validator coerceCallback))"
    "ids_disjoint (Property_new v validator coerceCallback)"
    by (simp_all add: Property_new_def ids_disjoint_def)
  from registry_run_inv [OF this, of calls] registry_run_inv [of p calls]
    RemoveChangeCallback_id_absent [of i p]
  show ?thesis by blast
qed

theorem ids_stay_disjoint_witness:
  "ids_disjoint (registry_run [Add observer, Add doubler, RemoveId 7, RemoveFn doubler,
      RemoveId 0, Add doubler] fresh_property) \<and>
   ids_registered (registry_run [Add observer, Add doubler, RemoveId 7, RemoveFn doubler,
      RemoveId 0, Add doubler] fresh_property) = {1} \<and>
   m_availableIDs (registry_run [Add observer, Add doubler, RemoveId 7, RemoveFn doubler,
      RemoveId 0, Add doubler] fresh_property) = [0] \<and>
   7 \<notin> ids_registered fresh_property \<and>
   RemoveChangeCallback_id 7 fresh_property = fresh_property"
  using ids_stay_disjoint [of "[Add observer, Add doubler, RemoveId 7, RemoveFn doubler,
      RemoveId 0, Add doubler]" 0 None None fresh_property 7]
  by (simp add: fresh_property_def Property_new_def AddChangeCallback_def
      RemoveChangeCallback_id_def RemoveChangeCallback_fn_def same_target_def target_fn_def
      ids_registered_def ids_disjoint_def observer_def doubler_def)

section \<open>The shared reference to the new value\<close>

text \<open>\<^verbatim>\<open>operator=\<close> hands its own parameter, a reference to the caller's variable, to the
  coercer, the validator, every callback and \<^verbatim>\<open>NotifyBindings\<close>, which hands it on to the
  coercer and validator of each target.\<close>

lemma assign_committed_nth_target:
  assumes "objs s a = Some p" and "m_value p \<noteq> v" and "accepts p (coerced p v)"
    and "m_bindings p = pre @ b # post" and "distinct (m_bindings p)"
    and "a \<notin> set pre" and "\<forall>x \<in> set pre. objs s x \<noteq> None"
    and "b \<noteq> a" and "objs s b = Some q"
  shows "objs (final (assign a v s)) b =
           Some (q\<lparr>m_value := offered_update q
             (foldl (\<lambda>w x. passed_on (the (objs s x)) w)
                (snd (callbacks_result (m_callbacks p) (m_value p) (validated p (coerced p v))))
                pre)\<rparr>)"
proof -
  let ?s1 = "s\<lparr>objs := (objs s)(a \<mapsto> p\<lparr>m_value := validated p (coerced p v)\<rparr>),
                trace := trace s @ check_events a p v @
                  callback_events a (m_callbacks p) (m_value p) (validated p (coerced p v))\<rparr>"
  let ?w = "snd (callbacks_result (m_callbacks p) (m_value p) (validated p (coerced p v)))"
  have d: "distinct (pre @ b # post)" using assms(4,5) by simp
  have live: "\<forall>x \<in> set pre. objs ?s1 x \<noteq> None" using assms(7) by simp
  have q: "objs ?s1 b = Some q" using assms(8,9) by simp
  have "foldl (\<lambda>w x. passed_on (the (objs ?s1 x)) w) ?w pre =
      foldl (\<lambda>w x. passed_on (the (objs s x)) w) ?w pre"
    using assms(6) by (intro foldl_passed_on_cong) auto
  with NotifyBindings_nth [OF d assms(6) live assms(8) q]
  show ?thesis by (simp add: assign_committed [OF assms(1-3)] assms(4))
qed

lemma assign_committed_Notified:
  assumes "objs s a = Some p" and "m_value p \<noteq> v" and "accepts p (coerced p v)"
  shows "filter is_Notified (new_events s (final (assign a v s))) =
           callback_events a (m_callbacks p) (m_value p) (validated p (coerced p v))"
proof -
  from assign_committed_events [OF assms] obtain evs where
    ev: "new_events s (final (assign a v s)) =
          check_events a p v @
          callback_events a (m_callbacks p) (m_value p) (validated p (coerced p v)) @ evs"
    and sh: "\<forall>e \<in> set evs. \<not> is_Notified e \<and> event_addr e \<in> set (m_bindings p) \<and> event_addr e \<noteq> a"
    by blast
  have "filter is_Notified evs = []" using sh by (simp add: filter_empty_conv)
  then show ?thesis
    unfolding ev by (simp add: check_events_no_Notified callback_events_Notified)
qed

lemma assign_committed_nth_events:
  assumes "objs s a = Some p" and "m_value p \<noteq> v" and "accepts p (coerced p v)"
    and "m_bindings p = pre @ b # post" and "distinct (m_bindings p)"
    and "a \<notin> set pre" and "\<forall>x \<in> set pre. objs s x \<noteq> None"
    and "b \<noteq> a" and "objs s b = Some q"
  shows "filter (\<lambda>e. event_addr e = b) (new_events s (final (assign a v s))) =
           check_events b q
             (foldl (\<lambda>w x. passed_on (the (objs s x)) w)
                (snd (callbacks_result (m_callbacks p) (m_value p) (validated p (coerced p v))))
                pre)"
proof -
  let ?cb = "callback_events a (m_callbacks p) (m_value p) (validated p (coerced p v))"
  let ?s1 = "s\<lparr>objs := (objs s)(a \<mapsto> p\<lparr>m_value := validated p (coerced p v)\<rparr>),
                trace := trace s @ check_events a p v @ ?cb\<rparr>"
  let ?old = "fst (callbacks_result (m_callbacks p) (m_value p) (validated p (coerced p v)))"
  let ?w = "snd (callbacks_result (m_callbacks p) (m_value p) (validated p (coerced p v)))"
  let ?r = "NotifyBindings a (pre @ b # post) ?old ?w ?s1"
  have d: "distinct (pre @ b # post)" using assms(4,5) by simp
  have live: "\<forall>x \<in> set pre. objs ?s1 x \<noteq> None" using assms(7) by simp
  have q: "objs ?s1 b = Some q" using assms(8,9) by simp
  have same: "foldl (\<lambda>w x. passed_on (the (objs ?s1 x)) w) ?w pre =
      foldl (\<lambda>w x. passed_on (the (objs s x)) w) ?w pre"
    using assms(6) by (intro foldl_passed_on_cong) auto
  from NotifyBindings_trace [of a "pre @ b # post" ?old ?w ?s1] obtain evs where
    tr: "trace (final ?r) = trace ?s1 @ evs" by blast
  then have tr': "trace (final ?r) = trace s @ (check_events a p v @ ?cb @ evs)" by simp
  have run: "assign a v s = ?r"
    using assign_committed [OF assms(1-3)] assms(4) by simp
  have ne: "new_events s (final (assign a v s)) = check_events a p v @ ?cb @ evs"
    unfolding run by (rule new_events_append [OF tr'])
  have own: "filter (\<lambda>e. event_addr e = b) (check_events a p v) = []"
    using assms(8) by (simp add: check_events_at)
  have "\<forall>e \<in> set ?cb. event_addr e \<noteq> b"
    using assms(8) callback_events_addr [of _ a "m_callbacks p" "m_value p"
        "validated p (coerced p v)"] by auto
  then have cbs: "filter (\<lambda>e. event_addr e = b) ?cb = []" by (simp add: filter_empty_conv)
  have "filter (\<lambda>e. event_addr e = b) (trace (final ?r)) =
      filter (\<lambda>e. event_addr e = b) (trace ?s1) @
        check_events b q (foldl (\<lambda>w x. passed_on (the (objs ?s1 x)) w) ?w pre)"
    by (rule NotifyBindings_nth_events [OF d assms(6) live assms(8) q])
  then have "filter (\<lambda>e. event_addr e = b) evs =
      check_events b q (foldl (\<lambda>w x. passed_on (the (objs s x)) w) ?w pre)"
    unfolding tr same by simp
  with own cbs show ?thesis unfolding ne by simp
qed

text \<open>C9, as the code has it. In a committed write, let a callback of the source receive the
  pair \<open>seen\<close> and leave the pair \<open>left\<close> in the two referenced variables. The value the source
  stores is the one committed before any callback ran. The callbacks after it are called
  starting from \<open>left\<close>: the next one receives \<open>left\<close>, and each later one what the callbacks
  before it left. Propagation starts from the value the last callback left: a bound target is
  offered that value passed through the coercer and validator of the targets visited before
  it, makes the calls of its own comparison, coercer and validator on it, and stores what they
  make of it.\<close>

theorem listener_mutation_is_shared:
  assumes "objs s a = Some p" and "m_value p \<noteq> v" and "accepts p (coerced p v)"
    and "m_callbacks p = cs1 @ (i, Callback t f) # cs2"
    and "seen = callbacks_result cs1 (m_value p) (validated p (coerced p v))"
    and "left = f (fst seen) (snd seen)"
    and "m_bindings p = pre @ b # post" and "distinct (m_bindings p)"
    and "a \<notin> set pre" and "\<forall>x \<in> set pre. objs s x \<noteq> None"
    and "b \<noteq> a" and "objs s b = Some q"
  shows "read a (final (assign a v s)) = Some (validated p (coerced p v)) \<and>
         filter is_Notified (new_events s (final (assign a v s))) =
           callback_events a cs1 (m_value p) (validated p (coerced p v)) @
           Notified a i (fst seen) (snd seen) #
           callback_events a cs2 (fst left) (snd left) \<and>
         filter (\<lambda>e. event_addr e = b) (new_events s (final (assign a v s))) =
           check_events b q
             (foldl (\<lambda>w x. passed_on (the (objs s x)) w)
                (snd (callbacks_result cs2 (fst left) (snd left))) pre) \<and>
         objs (final (assign a v s)) b =
           Some (q\<lparr>m_value := offered_update q
             (foldl (\<lambda>w x. passed_on (the (objs s x)) w)
                (snd (callbacks_result cs2 (fst left) (snd left))) pre)\<rparr>)"
proof -
  have committed: "objs s a = Some p" "m_value p \<noteq> v" "accepts p (coerced p v)"
    using assms by simp_all
  let ?v2 = "validated p (coerced p v)"
  have res: "callbacks_result (m_callbacks p) (m_value p) ?v2 =
      callbacks_result cs2 (fst left) (snd left)"
    unfolding assms(4) assms(6) assms(5)
    by (simp add: callbacks_result_append callbacks_result_simps)
  have evs: "callback_events a (m_callbacks p) (m_value p) ?v2 =
      callback_events a cs1 (m_value p) ?v2 @
      Notified a i (fst seen) (snd seen) # callback_events a cs2 (fst left) (snd left)"
    unfolding assms(4) assms(6) assms(5)
    by (simp add: callback_events_append callback_events_simps)
  have "read a (final (assign a v s)) = Some ?v2"
    by (simp add: read_def assign_committed_source [OF committed])
  moreover have "filter is_Notified (new_events s (final (assign a v s))) =
      callback_events a cs1 (m_value p) ?v2 @
      Notified a i (fst seen) (snd seen) # callback_events a cs2 (fst left) (snd left)"
    using assign_committed_Notified [OF committed] evs by simp
  moreover have "filter (\<lambda>e. event_addr e = b) (new_events s (final (assign a v s))) =
      check_events b q
        (foldl (\<lambda>w x. passed_on (the (objs s x)) w)
           (snd (callbacks_result cs2 (fst left) (snd left))) pre)"
    using assign_committed_nth_events [OF committed assms(7-12)] res by simp
  moreover have "objs (final (assign a v s)) b =
      Some (q\<lparr>m_value := offered_update q
        (foldl (\<lambda>w x. passed_on (the (objs s x)) w)
           (snd (callbacks_result cs2 (fst left) (snd left))) pre)\<rparr>)"
    using assign_committed_nth_target [OF committed assms(7-12)] res by simp
  ultimately show ?thesis by blast
qed

theorem listener_mutation_is_shared_witness:
  "objs echo_machine 0 = Some echo_A \<and> m_value echo_A \<noteq> 5 \<and> accepts echo_A (coerced echo_A 5) \<and>
   m_callbacks echo_A =
     [] @ (0, Callback 2 (\<lambda>old new. (old, 2 * new))) # [(1, doubler), (2, observer)] \<and>
   callbacks_result [] (m_value echo_A) (validated echo_A (coerced echo_A 5)) = (1, 5) \<and>
   m_bindings echo_A = [1] @ 2 # [] \<and> distinct (m_bindings echo_A) \<and>
   objs echo_machine 1 = Some fan_B \<and> objs echo_machine 2 = Some watcher \<and>
   callbacks_result [(1, doubler), (2, observer)] 1 10 = (1, 20) \<and>
   (21::int) = foldl (\<lambda>w x. passed_on (the (objs echo_machine x)) w) 20 [1] \<and>
   read 0 (final (assign 0 5 echo_machine)) = Some 5 \<and>
   filter is_Notified (new_events echo_machine (final (assign 0 5 echo_machine))) =
     [Notified 0 0 1 5, Notified 0 1 1 10, Notified 0 2 1 20] \<and>
   filter (\<lambda>e. event_addr e = 2) (new_events echo_machine (final (assign 0 5 echo_machine))) =
     [Coerced 2 21] \<and>
   objs (final (assign 0 5 echo_machine)) 2 = Some (watcher\<lparr>m_value := 21\<rparr>)"
  using listener_mutation_is_shared [of echo_machine 0 echo_A 5 "[]" 0 2
      "\<lambda>old new. (old, 2 * new)" "[(1, doubler), (2, observer)]" "(1, 5)" "(1, 10)" "[1]" 2 "[]"
      watcher]
  by (simp add: run_write read_def check_events_def echo_machine_def echo_A_def watcher_def
      fan_B_def doubler_def)

text \<open>C9 as stated fails. The source stores 5 and its first callback leaves 10 in
  \<^verbatim>\<open>newValue\<close>. The second callback receives that 10 and leaves 20, so the third callback
  receives 20, not 10. The target visited first is offered 20 and its coercer leaves 21, so
  the target visited second is offered 21: neither is offered the 10 the first callback
  left.\<close>

theorem later_callback_and_target_see_further_changes:
  "read 0 (final (assign 0 5 echo_machine)) = Some 5 \<and>
   callbacks_result [(0, doubler)] 1 5 = (1, 10) \<and>
   new_events echo_machine (final (assign 0 5 echo_machine)) =
     [Notified 0 0 1 5, Notified 0 1 1 10, Notified 0 2 1 20, Coerced 1 20, Coerced 2 21] \<and>
   read 1 (final (assign 0 5 echo_machine)) = Some 21 \<and>
   read 2 (final (assign 0 5 echo_machine)) = Some 21"
  by (simp add: run_write read_def echo_machine_def echo_A_def watcher_def fan_B_def doubler_def)



text \<open>C6, as the code has it. The targets of a committed write are visited one after another
  on the one variable the caller passed. A target is offered the value the callbacks of the
  source left in that variable, passed through the coercer and validator of every target
  visited before it whose stored value differed; the calls made at the target are those of
  its own comparison, coercer and validator on that value, and it stores what they make of
  it. The target visited first is offered the value left by the callbacks.\<close>

theorem target_is_offered_shared_variable:
  assumes "objs s a = Some p" and "m_value p \<noteq> v" and "accepts p (coerced p v)"
    and "m_bindings p = pre @ b # post" and "distinct (m_bindings p)"
    and "a \<notin> set pre" and "\<forall>x \<in> set pre. objs s x \<noteq> None"
    and "b \<noteq> a" and "objs s b = Some q"
    and "w = foldl (\<lambda>w x. passed_on (the (objs s x)) w)
               (snd (callbacks_result (m_callbacks p) (m_value p) (validated p (coerced p v))))
               pre"
  shows "filter (\<lambda>e. event_addr e = b) (new_events s (final (assign a v s))) =
           check_events b q w \<and>
         objs (final (assign a v s)) b = Some (q\<lparr>m_value := offered_update q w\<rparr>)"
  unfolding assms(10)
  using assign_committed_nth_events [OF assms(1-9)] assign_committed_nth_target [OF assms(1-9)]
  by simp

theorem target_is_offered_shared_variable_witness:
  "objs (fan_machine [1, 2]) 0 = Some (fan_A [1, 2]) \<and> m_value (fan_A [1, 2]) \<noteq> 5 \<and>
   accepts (fan_A [1, 2]) (coerced (fan_A [1, 2]) 5) \<and>
   m_bindings (fan_A [1, 2]) = [1] @ 2 # [] \<and> distinct (m_bindings (fan_A [1, 2])) \<and>
   objs (fan_machine [1, 2]) 1 = Some fan_B \<and> objs (fan_machine [1, 2]) 2 = Some fan_C \<and>
   (6::int) = foldl (\<lambda>w x. passed_on (the (objs (fan_machine [1, 2]) x)) w) 5 [1] \<and>
   filter (\<lambda>e. event_addr e = 2)
     (new_events (fan_machine [1, 2]) (final (assign 0 5 (fan_machine [1, 2])))) =
     [Coerced 2 6] \<and>
   objs (final (assign 0 5 (fan_machine [1, 2]))) 2 = Some (fan_C\<lparr>m_value := 12\<rparr>)"
  using target_is_offered_shared_variable [of "fan_machine [1, 2]" 0 "fan_A [1, 2]" 5 "[1]" 2
      "[]" fan_C 6]
  by (simp add: run_write check_events_def fan_machine_def fan_A_def fan_B_def fan_C_def
      clamp_0_99_def)

text \<open>C6 as the specification states it fails. A source is bound to two targets whose
  coercers add one and double, and the write of 5 is committed as 5. Whichever target is
  visited first is offered 5; the other is offered what the first one's coercer left in the
  shared variable, 6 in one order and 10 in the other, and never 5.\<close>

theorem later_target_is_offered_coerced_value:
  "read 0 (final (assign 0 5 (fan_machine [1, 2]))) = Some 5 \<and>
   new_events (fan_machine [1, 2]) (final (assign 0 5 (fan_machine [1, 2]))) =
     [Coerced 0 5, Coerced 1 5, Coerced 2 6] \<and>
   read 1 (final (assign 0 5 (fan_machine [1, 2]))) = Some 6 \<and>
   read 2 (final (assign 0 5 (fan_machine [1, 2]))) = Some 12 \<and>
   read 0 (final (assign 0 5 (fan_machine [2, 1]))) = Some 5 \<and>
   new_events (fan_machine [2, 1]) (final (assign 0 5 (fan_machine [2, 1]))) =
     [Coerced 0 5, Coerced 2 5, Coerced 1 10] \<and>
   read 2 (final (assign 0 5 (fan_machine [2, 1]))) = Some 10 \<and>
   read 1 (final (assign 0 5 (fan_machine [2, 1]))) = Some 11"
  by (simp add: run_write read_def fan_machine_def fan_A_def fan_B_def fan_C_def clamp_0_99_def)

end
